theory Spec2Isabelle
  imports Complex_Main "HOL-Library.Log_Nat"
begin

section \<open>JavaScript numbers\<close>

text \<open>
  Every number of the program is a JavaScript Number, an IEEE 754 binary64 value. A finite
  value is modelled by the rational it denotes, the two infinities and NaN are separate
  constructors, and every arithmetic operation rounds its exact result to the nearest
  binary64 value, ties to even (\<open>rd\<close>). The sign of zero is not modelled: the program never
  divides by a zero and never prints one with its sign.
\<close>

definition ilog2 :: "rat \<Rightarrow> int" where
  "ilog2 x = (if 1 \<le> x then bitlen \<lfloor>x\<rfloor> - 1 else - bitlen (\<lceil>1 / x\<rceil> - 1))"

definition round_half_even :: "rat \<Rightarrow> int" where
  "round_half_even y =
     (let f = \<lfloor>y\<rfloor>; d = y - of_int f
      in if d < 1/2 then f else if 1/2 < d then f + 1 else if even f then f else f + 1)"

definition expo :: "rat \<Rightarrow> int" where
  "expo x = max (ilog2 \<bar>x\<bar>) (- 1022)"

definition quantum :: "rat \<Rightarrow> rat" where
  "quantum x = 2 powi (expo x - 52)"

definition rnd :: "rat \<Rightarrow> rat" where
  "rnd x = (if x = 0 then 0 else of_int (round_half_even (x / quantum x)) * quantum x)"

datatype number = NaN | NInf | Fin rat | PInf

definition rd :: "rat \<Rightarrow> number" where
  "rd x = (let r = rnd x
           in if r \<noteq> 0 \<and> 1024 \<le> ilog2 \<bar>r\<bar> then (if 0 < r then PInf else NInf) else Fin r)"

definition is_double :: "rat \<Rightarrow> bool" where
  "is_double r = (rd r = Fin r)"

definition wf_number :: "number \<Rightarrow> bool" where
  "wf_number a = (case a of Fin r \<Rightarrow> is_double r | _ \<Rightarrow> True)"

definition isFinite :: "number \<Rightarrow> bool" where
  "isFinite a = (case a of Fin _ \<Rightarrow> True | _ \<Rightarrow> False)"

definition sign_of :: "number \<Rightarrow> int" where
  "sign_of a = (case a of NaN \<Rightarrow> 0 | NInf \<Rightarrow> - 1 | PInf \<Rightarrow> 1
                | Fin x \<Rightarrow> (if x < 0 then - 1 else if x = 0 then 0 else 1))"

definition inf_of_sign :: "int \<Rightarrow> number" where
  "inf_of_sign s = (if s = 0 then NaN else if 0 < s then PInf else NInf)"

definition fneg :: "number \<Rightarrow> number" where
  "fneg a = (case a of NaN \<Rightarrow> NaN | NInf \<Rightarrow> PInf | PInf \<Rightarrow> NInf | Fin x \<Rightarrow> Fin (- x))"

definition fadd :: "number \<Rightarrow> number \<Rightarrow> number" where
  "fadd a b =
     (case (a, b) of
        (Fin x, Fin y) \<Rightarrow> rd (x + y)
      | (Fin x, _) \<Rightarrow> b
      | (_, Fin y) \<Rightarrow> a
      | _ \<Rightarrow> (if a = b then a else NaN))"

definition fsub :: "number \<Rightarrow> number \<Rightarrow> number" where
  "fsub a b = fadd a (fneg b)"

definition fmul :: "number \<Rightarrow> number \<Rightarrow> number" where
  "fmul a b =
     (case (a, b) of
        (Fin x, Fin y) \<Rightarrow> rd (x * y)
      | _ \<Rightarrow> (if a = NaN \<or> b = NaN then NaN else inf_of_sign (sign_of a * sign_of b)))"

definition fdiv :: "number \<Rightarrow> number \<Rightarrow> number" where
  "fdiv a b =
     (case (a, b) of
        (Fin x, Fin y) \<Rightarrow> (if y = 0 then inf_of_sign (sign_of a) else rd (x / y))
      | (Fin x, NaN) \<Rightarrow> NaN
      | (Fin x, _) \<Rightarrow> Fin 0
      | (_, Fin y) \<Rightarrow> (if a = NaN then NaN else inf_of_sign (sign_of a * (if y < 0 then - 1 else 1)))
      | _ \<Rightarrow> NaN)"

text \<open>\<open>a < b\<close> and \<open>a <= b\<close> of JavaScript: false as soon as one side is NaN.\<close>

definition js_lt :: "number \<Rightarrow> number \<Rightarrow> bool" where
  "js_lt a b =
     (case (a, b) of
        (Fin x, Fin y) \<Rightarrow> x < y
      | (NInf, Fin y) \<Rightarrow> True
      | (NInf, PInf) \<Rightarrow> True
      | (Fin x, PInf) \<Rightarrow> True
      | _ \<Rightarrow> False)"

definition js_le :: "number \<Rightarrow> number \<Rightarrow> bool" where
  "js_le a b = (js_lt a b \<or> (a = b \<and> a \<noteq> NaN))"

definition Math_max :: "number \<Rightarrow> number \<Rightarrow> number" where
  "Math_max a b = (if a = NaN \<or> b = NaN then NaN else if js_lt a b then b else a)"

definition Math_min :: "number \<Rightarrow> number \<Rightarrow> number" where
  "Math_min a b = (if a = NaN \<or> b = NaN then NaN else if js_lt b a then b else a)"

text \<open>Truthiness of a number, as in \<open>c.unitNet ? ... : ...\<close>.\<close>

definition truthy :: "number \<Rightarrow> bool" where
  "truthy a = (a \<noteq> NaN \<and> a \<noteq> Fin 0)"

section \<open>JavaScript strings and values\<close>

text \<open>
  A string is a list of characters, each standing for one code unit below 256. The white
  space of \<open>trim\<close>, of \<open>\s\<close> and of the numeric string grammar is, in that range: TAB, LF,
  VT, FF, CR, SPACE and NBSP.
\<close>

definition is_space :: "char \<Rightarrow> bool" where
  "is_space c = (c \<in> set [CHR 0x09, CHR 0x0A, CHR 0x0B, CHR 0x0C, CHR 0x0D, CHR 0x20, CHR 0xA0])"

definition is_digit :: "char \<Rightarrow> bool" where
  "is_digit c = (c \<in> set ''0123456789'')"

text \<open>The value of a digit, decimal or hexadecimal.\<close>

definition hex_val :: "char \<Rightarrow> nat" where
  "hex_val c =
     (if c \<in> set ''ABCDEF'' then 10 + length (takeWhile (\<lambda>d. d \<noteq> c) ''ABCDEF'')
      else length (takeWhile (\<lambda>d. d \<noteq> c) ''0123456789abcdef''))"

definition digit_char :: "nat \<Rightarrow> char" where
  "digit_char d = ''0123456789'' ! d"

definition nat_of_digits :: "nat \<Rightarrow> string \<Rightarrow> nat" where
  "nat_of_digits base s = foldl (\<lambda>a c. base * a + hex_val c) 0 s"

function digits_of_nat :: "nat \<Rightarrow> string" where
  "digits_of_nat n =
     (if n < 10 then [digit_char n] else digits_of_nat (n div 10) @ [digit_char (n mod 10)])"
  by pat_completeness auto
termination
  by (relation "measure id") auto

declare digits_of_nat.simps [simp del]

definition trim :: "string \<Rightarrow> string" where
  "trim s = rev (dropWhile is_space (rev (dropWhile is_space s)))"

text \<open>\<open>s.lastIndexOf(c)\<close>, with -1 when \<open>c\<close> does not occur.\<close>

definition lastIndexOf :: "string \<Rightarrow> char \<Rightarrow> int" where
  "lastIndexOf s c =
     (if c \<in> set s then int (length s) - 1 - int (length (takeWhile (\<lambda>d. d \<noteq> c) (rev s)))
      else - 1)"

text \<open>\<open>s.split(sep)\<close> for a one-character separator.\<close>

fun split :: "string \<Rightarrow> char \<Rightarrow> string list" where
  "split [] sep = [[]]"
| "split (c # cs) sep =
     (if c = sep then [] # split cs sep
      else (case split cs sep of [] \<Rightarrow> [[c]] | p # ps \<Rightarrow> (c # p) # ps))"

text \<open>\<open>s.replace(a, b)\<close> with one-character strings: the first occurrence only.\<close>

fun replace_first :: "char \<Rightarrow> char \<Rightarrow> string \<Rightarrow> string" where
  "replace_first a b [] = []"
| "replace_first a b (c # cs) = (if c = a then b # cs else c # replace_first a b cs)"

text \<open>
  \<open>s.replace(/\.?0+$/, "")\<close>: the leftmost position from which the rest of the string is
  an optional dot followed by one or more zeros up to the end; that rest is removed.
\<close>

definition zeros_tail :: "string \<Rightarrow> bool" where
  "zeros_tail t =
     (case t of
        [] \<Rightarrow> False
      | c # r \<Rightarrow> (if c = CHR ''.'' then r \<noteq> [] \<and> (\<forall>d \<in> set r. d = CHR ''0'')
                  else (\<forall>d \<in> set t. d = CHR ''0'')))"

fun replace_trailing_zeros :: "string \<Rightarrow> string" where
  "replace_trailing_zeros [] = []"
| "replace_trailing_zeros (c # cs) =
     (if zeros_tail (c # cs) then [] else c # replace_trailing_zeros cs)"

subsection \<open>String to number: \<open>Number(s)\<close>\<close>

text \<open>
  The grammar of numeric strings: optional white space around either a signed decimal
  literal (digits, optional fraction, optional exponent, or \<open>Infinity\<close>) or an unsigned
  binary, octal or hexadecimal integer; the empty string is 0; anything else is NaN. The
  mathematical value is rounded to the nearest binary64 value.
\<close>

definition parse_exponent :: "string \<Rightarrow> int option" where
  "parse_exponent r =
     (case r of
        [] \<Rightarrow> Some 0
      | c # t \<Rightarrow>
          (if c = CHR ''e'' \<or> c = CHR ''E'' then
             (let neg = (t \<noteq> [] \<and> hd t = CHR ''-'');
                  t' = (if t \<noteq> [] \<and> (hd t = CHR ''-'' \<or> hd t = CHR ''+'') then tl t else t)
              in if t' \<noteq> [] \<and> (\<forall>d \<in> set t'. is_digit d)
                 then Some (if neg then - int (nat_of_digits 10 t') else int (nat_of_digits 10 t'))
                 else None)
           else None))"

definition parse_unsigned_decimal :: "string \<Rightarrow> rat option" where
  "parse_unsigned_decimal s =
     (let ip = takeWhile is_digit s; r1 = dropWhile is_digit s;
          fp = (if r1 \<noteq> [] \<and> hd r1 = CHR ''.'' then takeWhile is_digit (tl r1) else []);
          r2 = (if r1 \<noteq> [] \<and> hd r1 = CHR ''.'' then dropWhile is_digit (tl r1) else r1)
      in if ip = [] \<and> fp = [] then None
         else (case parse_exponent r2 of
                 None \<Rightarrow> None
               | Some e \<Rightarrow>
                   Some (of_nat (nat_of_digits 10 (ip @ fp)) / 10 ^ length fp * 10 powi e)))"

definition parse_decimal :: "string \<Rightarrow> number option" where
  "parse_decimal s =
     (let neg = (s \<noteq> [] \<and> hd s = CHR ''-'');
          u = (if s \<noteq> [] \<and> (hd s = CHR ''-'' \<or> hd s = CHR ''+'') then tl s else s)
      in if u = ''Infinity'' then Some (if neg then NInf else PInf)
         else (case parse_unsigned_decimal u of
                 None \<Rightarrow> None
               | Some v \<Rightarrow> Some (rd (if neg then - v else v))))"

definition parse_nondecimal :: "string \<Rightarrow> number option" where
  "parse_nondecimal s =
     (case s of
        z # x # ds \<Rightarrow>
          (if z = CHR ''0'' \<and> ds \<noteq> [] then
             (if (x = CHR ''x'' \<or> x = CHR ''X'') \<and> (\<forall>d \<in> set ds. d \<in> set ''0123456789abcdefABCDEF'')
              then Some (rd (of_nat (nat_of_digits 16 ds)))
              else if (x = CHR ''o'' \<or> x = CHR ''O'') \<and> (\<forall>d \<in> set ds. d \<in> set ''01234567'')
              then Some (rd (of_nat (nat_of_digits 8 ds)))
              else if (x = CHR ''b'' \<or> x = CHR ''B'') \<and> (\<forall>d \<in> set ds. d \<in> set ''01'')
              then Some (rd (of_nat (nat_of_digits 2 ds)))
              else None)
           else None)
      | _ \<Rightarrow> None)"

definition StringToNumber :: "string \<Rightarrow> number" where
  "StringToNumber s0 =
     (let s = trim s0
      in if s = [] then Fin 0
         else (case parse_nondecimal s of
                 Some n \<Rightarrow> n
               | None \<Rightarrow> (case parse_decimal s of Some n \<Rightarrow> n | None \<Rightarrow> NaN)))"

subsection \<open>Number to string: \<open>String(x)\<close> and \<open>x.toFixed(f)\<close>\<close>

text \<open>\<open>dec_exp x\<close> is the \<open>n\<close> with \<open>10^(n-1) \<le> x < 10^n\<close>, for \<open>x > 0\<close>.\<close>

definition dec_exp :: "rat \<Rightarrow> int" where
  "dec_exp x =
     (if 1 \<le> x then int (length (digits_of_nat (nat \<lfloor>x\<rfloor>)))
      else 1 - int (length (digits_of_nat (nat (\<lceil>1 / x\<rceil> - 1)))))"

text \<open>
  The shortest decimal that reads back as \<open>x\<close>: for \<open>k = 1, 2, ...\<close> digits, the two
  \<open>k\<close>-digit decimals around \<open>x\<close> are tried; of two that read back as \<open>x\<close> the nearer
  is taken. The result \<open>(s, e)\<close> stands for \<open>s * 10^e\<close>.
\<close>

fun shortest_decimal :: "rat \<Rightarrow> int \<Rightarrow> nat \<Rightarrow> nat \<Rightarrow> nat \<times> int" where
  "shortest_decimal x n k 0 = (nat (round_half_even (x / 10 powi (n - int k))), n - int k)"
| "shortest_decimal x n k (Suc fuel) =
     (let p = 10 powi (n - int k); lo = \<lfloor>x / p\<rfloor>; hi = lo + 1;
          oklo = (rd (of_int lo * p) = Fin x); okhi = (rd (of_int hi * p) = Fin x)
      in if oklo \<and> (\<not> okhi \<or> x - of_int lo * p < of_int hi * p - x
                      \<or> (x - of_int lo * p = of_int hi * p - x \<and> even lo))
         then (nat lo, n - int k)
         else if okhi then (nat hi, n - int k)
         else shortest_decimal x n (Suc k) fuel)"

definition strip_zeros :: "string \<Rightarrow> string" where
  "strip_zeros ds = rev (dropWhile (\<lambda>c. c = CHR ''0'') (rev ds))"

definition pos_toString :: "rat \<Rightarrow> string" where
  "pos_toString x =
     (let (s, e) = shortest_decimal x (dec_exp x) 1 16;
          ds0 = digits_of_nat s; n = int (length ds0) + e;
          ds = strip_zeros ds0; k = int (length ds)
      in if k \<le> n \<and> n \<le> 21 then ds @ replicate (nat (n - k)) (CHR ''0'')
         else if 0 < n \<and> n \<le> 21 then take (nat n) ds @ ''.'' @ drop (nat n) ds
         else if - 6 < n \<and> n \<le> 0 then ''0.'' @ replicate (nat (- n)) (CHR ''0'') @ ds
         else (let ex = n - 1;
                   es = (if ex < 0 then ''-'' else ''+'') @ digits_of_nat (nat \<bar>ex\<bar>)
               in if k = 1 then ds @ ''e'' @ es
                  else [hd ds] @ ''.'' @ tl ds @ ''e'' @ es))"

definition Number_toString :: "number \<Rightarrow> string" where
  "Number_toString a =
     (case a of
        NaN \<Rightarrow> ''NaN''
      | PInf \<Rightarrow> ''Infinity''
      | NInf \<Rightarrow> ''-Infinity''
      | Fin x \<Rightarrow> (if x = 0 then ''0'' else if x < 0 then ''-'' @ pos_toString (- x)
                   else pos_toString x))"

definition toFixed :: "number \<Rightarrow> nat \<Rightarrow> string" where
  "toFixed a f =
     (case a of
        Fin x0 \<Rightarrow>
          (let s = (if x0 < 0 then ''-'' else ''''); x = \<bar>x0\<bar>
           in if 10 ^ 21 \<le> x then s @ Number_toString (Fin x)
              else (let n = nat \<lfloor>x * 10 ^ f + 1 / 2\<rfloor>;
                        m = digits_of_nat n;
                        m2 = (if length m \<le> f then replicate (f + 1 - length m) (CHR ''0'') @ m
                              else m)
                    in if f = 0 then s @ m
                       else s @ take (length m2 - f) m2 @ ''.'' @ drop (length m2 - f) m2))
      | _ \<Rightarrow> Number_toString a)"

subsection \<open>Values held in the fields of a record\<close>

text \<open>
  A numeric field holds the raw text of an input or a number, depending on the variant and
  on the moment; \<open>undefined\<close> and \<open>null\<close> are what \<open>??\<close> looks for.
\<close>

datatype jsval = Undefined | Null | Num number | Str string

text \<open>\<open>String(v ?? "")\<close>\<close>

definition String_or_empty :: "jsval \<Rightarrow> string" where
  "String_or_empty v =
     (case v of Undefined \<Rightarrow> [] | Null \<Rightarrow> [] | Num n \<Rightarrow> Number_toString n | Str s \<Rightarrow> s)"

section \<open>The data model\<close>

text \<open>
  The fields every line object has, whether it is a stored line, a draft of the side panel
  or a row of the invoice creation form. The stored line adds its own identity and the
  identity of its invoice (the source's \<open>id\<close> and \<open>invoiceId\<close>); a row of the creation
  form adds its \<open>_key\<close>; a row of the purchases view adds the header fields of its invoice.
\<close>

record line_fields =
  invoiceItem :: string
  qty :: jsval
  unitType :: string
  unitPrice :: jsval
  discountRate :: jsval
  vatRate :: jsval

record line = line_fields +
  line_id :: string
  invoiceId :: string

record create_line = line_fields +
  key :: string

record view_row = line +
  row_date :: string
  row_supplierName :: string
  row_invoiceNo :: string

record invoice_fields =
  invoiceNo :: string
  date :: string
  supplierName :: string
  tevfikatRate :: jsval
  discountTotal :: jsval

record invoice = invoice_fields +
  inv_id :: string

text \<open>What \<open>calcLine\<close> returns.\<close>

record computed =
  q :: number
  up :: number
  disc :: number
  vat :: number
  unitNet :: number
  unitVatIncl :: number
  totalNet :: number
  totalVatIncl :: number
  vatAmount :: number

text \<open>A row of the export: the keys of \<open>purchaseExportHeaders\<close>.\<close>

record export_row =
  x_date :: string
  x_supplierName :: string
  x_invoiceNo :: string
  x_invoiceItem :: string
  x_qty :: jsval
  x_unitType :: string
  x_unitPrice :: jsval
  x_discountRate :: jsval
  x_unitNet :: string
  x_vatRate :: jsval
  x_unitVatIncl :: string
  x_totalNet :: string
  x_totalVatIncl :: string

text \<open>
  The messages of \<open>alert\<close>: "Tedarikci adi zorunludur.", "En az 1 kalem girmelisiniz.",
  "Faturada kalem yok." and "Dagitim icin kalem tutarlari 0'dan buyuk olmalidir.".
\<close>

datatype alert = SupplierRequired | NoLineEntered | InvoiceHasNoLines | WeightsNotPositive

text \<open>
  The state of the component: the two collections, the invoice creation form, and the
  alerts shown so far. An event handler reads the state of the render it was created in
  (its snapshot) and queues updates with the setters; the updates are applied in order to
  the state that is current when they run.
\<close>

record ui_state =
  invoices :: "invoice list"
  lines :: "line list"
  invoiceCreateDraft :: invoice_fields
  invoiceCreateLines :: "create_line list"
  invoiceCreateOpen :: bool
  alerts :: "alert list"

section \<open>The first variant: \<open>src/App.jsx\<close>\<close>

definition parseSmartNumber :: "jsval \<Rightarrow> number" where
  "parseSmartNumber v =
     (case v of
        Num n \<Rightarrow> (if isFinite n then n else Fin 0)
      | _ \<Rightarrow>
        (let s0 = trim (String_or_empty v)
         in if s0 = [] then Fin 0
            else
              (let s1 = filter (\<lambda>c. \<not> is_space c) s0;
                   sign = (if s1 \<noteq> [] \<and> hd s1 = CHR ''-'' then ''-'' else '''');
                   s2 = (if s1 \<noteq> [] \<and> hd s1 = CHR ''-'' then tl s1 else s1);
                   s = filter (\<lambda>c. is_digit c \<or> c = CHR ''.'' \<or> c = CHR '','') s2
               in if s = [] then Fin 0
                  else
                    (let lastDot = lastIndexOf s (CHR ''.'');
                         lastComma = lastIndexOf s (CHR '','');
                         hasDot = (0 \<le> lastDot);
                         hasComma = (0 \<le> lastComma);
                         decSep =
                           (if hasDot \<and> hasComma
                            then Some (if lastComma < lastDot then CHR ''.'' else CHR '','')
                            else if hasDot \<or> hasComma
                            then (let sep = (if hasDot then CHR ''.'' else CHR '','');
                                      parts = split s sep
                                  in if length parts = 2 \<and> length (parts ! 1) = 3
                                        \<and> 0 < length (parts ! 0) \<and> length (parts ! 0) \<le> 3
                                     then None else Some sep)
                            else None);
                         intPart =
                           (case decSep of None \<Rightarrow> s
                            | Some d \<Rightarrow> take (nat (lastIndexOf s d)) s);
                         fracPart =
                           (case decSep of None \<Rightarrow> []
                            | Some d \<Rightarrow> drop (nat (lastIndexOf s d + 1)) s);
                         intPart' = filter (\<lambda>c. c \<noteq> CHR ''.'' \<and> c \<noteq> CHR '','') intPart;
                         fracPart' = filter (\<lambda>c. c \<noteq> CHR ''.'' \<and> c \<noteq> CHR '','') fracPart;
                         normalized = sign @ (if intPart' = [] then ''0'' else intPart')
                                      @ (if fracPart' = [] then [] else ''.'' @ fracPart');
                         n = StringToNumber normalized
                     in if isFinite n then n else Fin 0))))"

definition toNumber :: "jsval \<Rightarrow> number" where
  "toNumber v = parseSmartNumber v"

definition clamp :: "number \<Rightarrow> number \<Rightarrow> number \<Rightarrow> number" where
  "clamp n mn mx = Math_min mx (Math_max mn n)"

definition formatForInput :: "jsval \<Rightarrow> nat \<Rightarrow> string" where
  "formatForInput n maxDecimals =
     (let x = toNumber n
      in if \<not> isFinite x then []
         else (let fixed = toFixed x maxDecimals;
                   t = replace_trailing_zeros fixed
               in replace_first (CHR ''.'') (CHR '','') t))"

definition calcLine :: "'a line_fields_scheme \<Rightarrow> computed" where
  "calcLine l =
     (let q = Math_max (Fin 0) (toNumber (qty l));
          up = Math_max (Fin 0) (toNumber (unitPrice l));
          disc = clamp (toNumber (discountRate l)) (Fin 0) (Fin 100);
          vat = clamp (toNumber (vatRate l)) (Fin 0) (Fin 100);
          unitNet = fmul up (fsub (Fin 1) (fdiv disc (Fin 100)));
          unitVatIncl = fmul unitNet (fadd (Fin 1) (fdiv vat (Fin 100)));
          totalNet = fmul unitNet q;
          totalVatIncl = fmul unitVatIncl q;
          vatAmount = fsub totalVatIncl totalNet
      in \<lparr>q = q, up = up, disc = disc, vat = vat, unitNet = unitNet,
          unitVatIncl = unitVatIncl, totalNet = totalNet, totalVatIncl = totalVatIncl,
          vatAmount = vatAmount\<rparr>)"

definition deriveFromUnitNet :: "'a line_fields_scheme \<Rightarrow> jsval \<Rightarrow> 'a line_fields_scheme" where
  "deriveFromUnitNet draft nextUnitNet =
     (let unitNet = Math_max (Fin 0) (toNumber nextUnitNet);
          up = Math_max (Fin 0) (toNumber (unitPrice draft))
      in if js_lt (Fin 0) up then
           (let disc = fmul (Fin 100) (fsub (Fin 1) (fdiv unitNet up))
            in if js_lt disc (Fin 0)
               then draft\<lparr>unitPrice := Str (Number_toString unitNet), discountRate := Str ''0''\<rparr>
               else draft\<lparr>discountRate := Str (Number_toString (clamp disc (Fin 0) (Fin 100)))\<rparr>)
         else draft\<lparr>unitPrice := Str (Number_toString unitNet), discountRate := Str ''0''\<rparr>)"

definition deriveFromUnitVatIncl :: "'a line_fields_scheme \<Rightarrow> jsval \<Rightarrow> 'a line_fields_scheme" where
  "deriveFromUnitVatIncl draft nextUnitVatIncl =
     (let vat = clamp (toNumber (vatRate draft)) (Fin 0) (Fin 100);
          uvi = Math_max (Fin 0) (toNumber nextUnitVatIncl);
          denom = fadd (Fin 1) (fdiv vat (Fin 100));
          unitNet = (if js_lt (Fin 0) denom then fdiv uvi denom else uvi)
      in deriveFromUnitNet draft (Num unitNet))"

text \<open>
  The allocation loop, written three times in the source with the same body
  (\<open>distributeCreateDiscount\<close>, \<open>distributeInvoiceDiscount\<close>, \<open>saveInvoiceCreate\<close>): a
  \<open>map\<close> over the lines that threads the running total \<open>allocated\<close>. The lines come
  paired with their weights; the share of each line is returned beside the updated line.
\<close>

fun allocate :: "number \<Rightarrow> number \<Rightarrow> number \<Rightarrow> ('a line_fields_scheme \<times> number) list
    \<Rightarrow> (number \<times> 'a line_fields_scheme) list" where
  "allocate dTotal sumW allocated [] = []"
| "allocate dTotal sumW allocated ((l, w) # rest) =
     (let share = (if rest = [] then fsub dTotal allocated
                   else fdiv (fmul dTotal w) sumW);
          allocated' = fadd allocated share;
          gross = w;
          rate = (if js_lt (Fin 0) gross then fmul (fdiv share gross) (Fin 100) else Fin 0)
      in (share, l\<lparr>discountRate := Str (Number_toString (clamp rate (Fin 0) (Fin 100)))\<rparr>)
         # allocate dTotal sumW allocated' rest)"

definition weight :: "'a line_fields_scheme \<Rightarrow> number" where
  "weight l = fmul (Math_max (Fin 0) (toNumber (unitPrice l))) (Math_max (Fin 0) (toNumber (qty l)))"

definition sum_weights :: "number list \<Rightarrow> number" where
  "sum_weights weights = foldl fadd (Fin 0) weights"

text \<open>\<open>new Map(updated.map((u) => [u.id, u]))\<close>: of two entries with one key the later wins.\<close>

definition by_id :: "line list \<Rightarrow> string \<Rightarrow> line option" where
  "by_id updated = map_of (rev (map (\<lambda>u. (line_id u, u)) updated))"

text \<open>
  \<open>distributeInvoiceDiscount\<close> reads \<open>lines\<close> of the render it was created in (\<open>snap\<close>)
  and queues its update on the state \<open>st\<close>.
\<close>

definition distributeInvoiceDiscount :: "ui_state \<Rightarrow> string \<Rightarrow> number \<Rightarrow> ui_state \<Rightarrow> ui_state" where
  "distributeInvoiceDiscount snap invId dTotal st =
     (let invLines = filter (\<lambda>x. invoiceId x = invId) (lines snap)
      in if length invLines = 0 then st\<lparr>alerts := alerts st @ [InvoiceHasNoLines]\<rparr>
         else
           (let weights = map weight invLines;
                sumW = sum_weights weights
            in if js_le sumW (Fin 0) then st\<lparr>alerts := alerts st @ [WeightsNotPositive]\<rparr>
               else
                 (let updated = map snd (allocate dTotal sumW (Fin 0) (zip invLines weights))
                  in st\<lparr>lines := map (\<lambda>x. case by_id updated (line_id x) of
                                              Some u \<Rightarrow> u | None \<Rightarrow> x) (lines st)\<rparr>)))"

text \<open>
  \<open>saveInvoiceCreate\<close>. The calls of \<open>uid()\<close> are a parameter: \<open>uid 0\<close> is the identity of
  the invoice, \<open>uid (i + 1)\<close> that of its \<open>i\<close>-th line.
\<close>

definition saveInvoiceCreate :: "(nat \<Rightarrow> string) \<Rightarrow> ui_state \<Rightarrow> ui_state" where
  "saveInvoiceCreate uid snap =
     (if trim (supplierName (invoiceCreateDraft snap)) = []
      then snap\<lparr>alerts := alerts snap @ [SupplierRequired]\<rparr>
      else
        (let meaningfulLines =
               map (\<lambda>l. \<lparr>invoiceItem = trim (invoiceItem l),
                         qty = Str (String_or_empty (qty l)),
                         unitType = unitType l,
                         unitPrice = Str (String_or_empty (unitPrice l)),
                         discountRate = Str (String_or_empty (discountRate l)),
                         vatRate = Str (String_or_empty (vatRate l))\<rparr>)
                   (filter (\<lambda>l. trim (invoiceItem l) \<noteq> []) (invoiceCreateLines snap))
         in if length meaningfulLines = 0
            then snap\<lparr>alerts := alerts snap @ [NoLineEntered]\<rparr>
            else
              (let invId = uid 0;
                   dTotal = Math_max (Fin 0) (toNumber (discountTotal (invoiceCreateDraft snap)));
                   inv = \<lparr>invoiceNo = (if trim (invoiceNo (invoiceCreateDraft snap)) = []
                                       then ''INV-'' @ take 6 invId
                                       else trim (invoiceNo (invoiceCreateDraft snap))),
                          date = date (invoiceCreateDraft snap),
                          supplierName = trim (supplierName (invoiceCreateDraft snap)),
                          tevfikatRate = Num (clamp (toNumber (tevfikatRate (invoiceCreateDraft snap)))
                                                (Fin 0) (Fin 100)),
                          discountTotal = Num dTotal,
                          inv_id = invId\<rparr>;
                   newLines = map (\<lambda>(i, l). \<lparr>invoiceItem = invoiceItem l, qty = qty l,
                                               unitType = unitType l, unitPrice = unitPrice l,
                                               discountRate = discountRate l, vatRate = vatRate l,
                                               line_id = uid (i + 1), invoiceId = invId\<rparr>)
                                (zip [0 ..< length meaningfulLines] meaningfulLines);
                   weights = map weight newLines;
                   sumW = sum_weights weights;
                   newLines' = (if js_lt (Fin 0) dTotal \<and> js_lt (Fin 0) sumW
                                then map snd (allocate dTotal sumW (Fin 0) (zip newLines weights))
                                else newLines)
               in snap\<lparr>invoices := inv # invoices snap,
                        lines := newLines' @ lines snap,
                        invoiceCreateOpen := False\<rparr>)))"

definition buildExportRows :: "view_row list \<Rightarrow> export_row list" where
  "buildExportRows viewRows =
     map (\<lambda>r. let c = calcLine r
               in \<lparr>x_date = row_date r,
                   x_supplierName = row_supplierName r,
                   x_invoiceNo = row_invoiceNo r,
                   x_invoiceItem = invoiceItem r,
                   x_qty = qty r,
                   x_unitType = unitType r,
                   x_unitPrice = unitPrice r,
                   x_discountRate = discountRate r,
                   x_unitNet = (if truthy (unitNet c) then Number_toString (unitNet c) else []),
                   x_vatRate = vatRate r,
                   x_unitVatIncl = (if truthy (unitVatIncl c) then Number_toString (unitVatIncl c) else []),
                   x_totalNet = (if truthy (totalNet c) then Number_toString (totalNet c) else []),
                   x_totalVatIncl = (if truthy (totalVatIncl c) then Number_toString (totalVatIncl c) else [])\<rparr>)
         viewRows"

section \<open>The second variant: \<open>part_000\<close>\<close>

definition toNumber_v2 :: "jsval \<Rightarrow> number" where
  "toNumber_v2 v =
     (let n = (case v of
                 Num x \<Rightarrow> x
               | _ \<Rightarrow> StringToNumber (replace_first (CHR '','') (CHR ''.'') (String_or_empty v)))
      in if isFinite n then n else Fin 0)"

definition calcLine_v2 :: "'a line_fields_scheme \<Rightarrow> computed" where
  "calcLine_v2 l =
     (let q = Math_max (Fin 0) (toNumber_v2 (qty l));
          up = Math_max (Fin 0) (toNumber_v2 (unitPrice l));
          disc = clamp (toNumber_v2 (discountRate l)) (Fin 0) (Fin 100);
          vat = clamp (toNumber_v2 (vatRate l)) (Fin 0) (Fin 100);
          unitNet = fmul up (fsub (Fin 1) (fdiv disc (Fin 100)));
          unitVatIncl = fmul unitNet (fadd (Fin 1) (fdiv vat (Fin 100)));
          totalNet = fmul unitNet q;
          totalVatIncl = fmul unitVatIncl q;
          vatAmount = fsub totalVatIncl totalNet
      in \<lparr>q = q, up = up, disc = disc, vat = vat, unitNet = unitNet,
          unitVatIncl = unitVatIncl, totalNet = totalNet, totalVatIncl = totalVatIncl,
          vatAmount = vatAmount\<rparr>)"

definition deriveFromUnitNet_v2 :: "'a line_fields_scheme \<Rightarrow> jsval \<Rightarrow> 'a line_fields_scheme" where
  "deriveFromUnitNet_v2 draft nextUnitNet =
     (let unitNet = Math_max (Fin 0) (toNumber_v2 nextUnitNet);
          up = Math_max (Fin 0) (toNumber_v2 (unitPrice draft))
      in if js_lt (Fin 0) up then
           (let disc = fmul (Fin 100) (fsub (Fin 1) (fdiv unitNet up))
            in if js_lt disc (Fin 0)
               then draft\<lparr>unitPrice := Num unitNet, discountRate := Num (Fin 0)\<rparr>
               else draft\<lparr>discountRate := Num (clamp disc (Fin 0) (Fin 100))\<rparr>)
         else draft\<lparr>unitPrice := Num unitNet, discountRate := Num (Fin 0)\<rparr>)"

definition deriveFromUnitVatIncl_v2 :: "'a line_fields_scheme \<Rightarrow> jsval \<Rightarrow> 'a line_fields_scheme" where
  "deriveFromUnitVatIncl_v2 draft nextUnitVatIncl =
     (let vat = clamp (toNumber_v2 (vatRate draft)) (Fin 0) (Fin 100);
          uvi = Math_max (Fin 0) (toNumber_v2 nextUnitVatIncl);
          denom = fadd (Fin 1) (fdiv vat (Fin 100));
          unitNet = (if js_lt (Fin 0) denom then fdiv uvi denom else uvi)
      in deriveFromUnitNet_v2 draft (Num unitNet))"

fun allocate_v2 :: "number \<Rightarrow> number \<Rightarrow> number \<Rightarrow> ('a line_fields_scheme \<times> number) list
    \<Rightarrow> (number \<times> 'a line_fields_scheme) list" where
  "allocate_v2 dTotal sumW allocated [] = []"
| "allocate_v2 dTotal sumW allocated ((l, w) # rest) =
     (let share = (if rest = [] then fsub dTotal allocated
                   else fdiv (fmul dTotal w) sumW);
          allocated' = fadd allocated share;
          gross = w;
          rate = (if js_lt (Fin 0) gross then fmul (fdiv share gross) (Fin 100) else Fin 0)
      in (share, l\<lparr>discountRate := Num (clamp rate (Fin 0) (Fin 100))\<rparr>)
         # allocate_v2 dTotal sumW allocated' rest)"

definition weight_v2 :: "'a line_fields_scheme \<Rightarrow> number" where
  "weight_v2 l =
     fmul (Math_max (Fin 0) (toNumber_v2 (unitPrice l))) (Math_max (Fin 0) (toNumber_v2 (qty l)))"

definition distributeInvoiceDiscount_v2 :: "ui_state \<Rightarrow> string \<Rightarrow> number \<Rightarrow> ui_state \<Rightarrow> ui_state" where
  "distributeInvoiceDiscount_v2 snap invId dTotal st =
     (let invLines = filter (\<lambda>x. invoiceId x = invId) (lines snap)
      in if length invLines = 0 then st\<lparr>alerts := alerts st @ [InvoiceHasNoLines]\<rparr>
         else
           (let weights = map weight_v2 invLines;
                sumW = sum_weights weights
            in if js_le sumW (Fin 0) then st\<lparr>alerts := alerts st @ [WeightsNotPositive]\<rparr>
               else
                 (let updated = map snd (allocate_v2 dTotal sumW (Fin 0) (zip invLines weights))
                  in st\<lparr>lines := map (\<lambda>x. case by_id updated (line_id x) of
                                              Some u \<Rightarrow> u | None \<Rightarrow> x) (lines st)\<rparr>)))"

definition saveInvoiceCreate_v2 :: "(nat \<Rightarrow> string) \<Rightarrow> ui_state \<Rightarrow> ui_state" where
  "saveInvoiceCreate_v2 uid snap =
     (if trim (supplierName (invoiceCreateDraft snap)) = []
      then snap\<lparr>alerts := alerts snap @ [SupplierRequired]\<rparr>
      else
        (let meaningfulLines =
               map (\<lambda>l. \<lparr>invoiceItem = trim (invoiceItem l),
                         qty = Num (toNumber_v2 (qty l)),
                         unitType = unitType l,
                         unitPrice = Num (toNumber_v2 (unitPrice l)),
                         discountRate = Num (clamp (toNumber_v2 (discountRate l)) (Fin 0) (Fin 100)),
                         vatRate = Num (clamp (toNumber_v2 (vatRate l)) (Fin 0) (Fin 100))\<rparr>)
                   (filter (\<lambda>l. trim (invoiceItem l) \<noteq> []) (invoiceCreateLines snap))
         in if length meaningfulLines = 0
            then snap\<lparr>alerts := alerts snap @ [NoLineEntered]\<rparr>
            else
              (let invId = uid 0;
                   dTotal = Math_max (Fin 0) (toNumber_v2 (discountTotal (invoiceCreateDraft snap)));
                   inv = \<lparr>invoiceNo = (if trim (invoiceNo (invoiceCreateDraft snap)) = []
                                       then ''INV-'' @ take 6 invId
                                       else trim (invoiceNo (invoiceCreateDraft snap))),
                          date = date (invoiceCreateDraft snap),
                          supplierName = trim (supplierName (invoiceCreateDraft snap)),
                          tevfikatRate = Num (clamp (toNumber_v2 (tevfikatRate (invoiceCreateDraft snap)))
                                                (Fin 0) (Fin 100)),
                          discountTotal = Num dTotal,
                          inv_id = invId\<rparr>;
                   st1 = snap\<lparr>invoices := inv # invoices snap\<rparr>;
                   newLines = map (\<lambda>(i, l). \<lparr>invoiceItem = invoiceItem l, qty = qty l,
                                               unitType = unitType l, unitPrice = unitPrice l,
                                               discountRate = discountRate l, vatRate = vatRate l,
                                               line_id = uid (i + 1), invoiceId = invId\<rparr>)
                                (zip [0 ..< length meaningfulLines] meaningfulLines);
                   st2 = st1\<lparr>lines := newLines @ lines st1\<rparr>;
                   st3 = (if js_lt (Fin 0) dTotal
                          then distributeInvoiceDiscount_v2 snap invId dTotal st2 else st2)
               in st3\<lparr>invoiceCreateOpen := False\<rparr>)))"

section \<open>Words of the specification\<close>

text \<open>
  A plain decimal string with \<open>.\<close> as its decimal separator: an optional minus sign, one
  or more digits, and optionally a dot followed by one or more digits.
\<close>

definition plain_decimal :: "string \<Rightarrow> bool" where
  "plain_decimal s =
     (let u = (if s \<noteq> [] \<and> hd s = CHR ''-'' then tl s else s);
          ip = takeWhile is_digit u; r = dropWhile is_digit u
      in ip \<noteq> [] \<and> (r = [] \<or> (hd r = CHR ''.'' \<and> tl r \<noteq> [] \<and> list_all is_digit (tl r))))"

definition plain_decimal_val :: "jsval \<Rightarrow> bool" where
  "plain_decimal_val v = (case v of Str s \<Rightarrow> plain_decimal s | _ \<Rightarrow> False)"

text \<open>
  Two line objects agree on every field other than \<open>unitPrice\<close> and \<open>discountRate\<close>:
  on the four named fields and on whatever else the object carries.
\<close>

definition same_other_fields :: "'a line_fields_scheme \<Rightarrow> 'a line_fields_scheme \<Rightarrow> bool" where
  "same_other_fields a b =
     (invoiceItem a = invoiceItem b \<and> qty a = qty b \<and> unitType a = unitType b
      \<and> vatRate a = vatRate b \<and> line_fields.more a = line_fields.more b)"

text \<open>A field that holds a number holds a binary64 number.\<close>

definition wf_val :: "jsval \<Rightarrow> bool" where
  "wf_val v = (case v of Num n \<Rightarrow> wf_number n | _ \<Rightarrow> True)"

definition wf_line :: "'a line_fields_scheme \<Rightarrow> bool" where
  "wf_line l = (wf_val (qty l) \<and> wf_val (unitPrice l) \<and> wf_val (discountRate l) \<and> wf_val (vatRate l))"

text \<open>
  What the loop of \<open>distributeInvoiceDiscount\<close> (first variant) computes for the lines
  \<open>invLines\<close> of an invoice and a lump discount: the share and the updated line of each.
\<close>

definition allocation_of :: "number \<Rightarrow> 'a line_fields_scheme list
    \<Rightarrow> (number \<times> 'a line_fields_scheme) list" where
  "allocation_of dTotal invLines =
     allocate dTotal (sum_weights (map weight invLines)) (Fin 0) (zip invLines (map weight invLines))"


text \<open>
  What a computed field of the export can be: the empty text, a plain decimal, a number in
  exponent notation, or \<open>Infinity\<close>.
\<close>

definition computed_text :: "string \<Rightarrow> bool" where
  "computed_text s = (s = [] \<or> plain_decimal s \<or> CHR ''e'' \<in> set s \<or> s = ''Infinity'')"

text \<open>
  The value of a finite number, and two numbers being finite and at most \<open>e\<close> apart.
\<close>

definition fin_val :: "number \<Rightarrow> rat" where
  "fin_val a = (case a of Fin x \<Rightarrow> x | _ \<Rightarrow> 0)"

definition differ_at_most :: "number \<Rightarrow> number \<Rightarrow> rat \<Rightarrow> bool" where
  "differ_at_most a b e = (case (a, b) of (Fin x, Fin y) \<Rightarrow> \<bar>x - y\<bar> \<le> e | _ \<Rightarrow> False)"

text \<open>The factor \<open>1 + vat / 100\<close> of a computed line, as \<open>calcLine\<close> evaluates it.\<close>

definition vat_factor :: "computed \<Rightarrow> number" where
  "vat_factor c = fadd (Fin 1) (fdiv (vat c) (Fin 100))"

section \<open>Example inputs\<close>

text \<open>A line of unit price 32 with a discount of 3.125 per cent, typed as \<open>3,1250\<close>.\<close>

definition draft_32 :: line_fields where
  "draft_32 = \<lparr>invoiceItem = ''Toner'', qty = Str ''1'', unitType = ''Adet'',
                unitPrice = Str ''32'', discountRate = Str ''3,1250'', vatRate = Str ''20''\<rparr>"

text \<open>
  The creation form of the specification's example: two lines weighing 100 and 300, a lump
  discount of 40, and an empty store. Once with the texts of the first variant's inputs,
  once with the numbers of the second's.
\<close>

definition form_lines :: "create_line list" where
  "form_lines =
     [\<lparr>invoiceItem = ''A'', qty = Str ''1'', unitType = ''Adet'', unitPrice = Str ''100'',
       discountRate = Str '''', vatRate = Str ''20'', key = ''k1''\<rparr>,
      \<lparr>invoiceItem = ''B'', qty = Str ''3'', unitType = ''Adet'', unitPrice = Str ''100'',
       discountRate = Str '''', vatRate = Str ''20'', key = ''k2''\<rparr>]"

definition form_lines_v2 :: "create_line list" where
  "form_lines_v2 =
     [\<lparr>invoiceItem = ''A'', qty = Num (Fin 1), unitType = ''Adet'', unitPrice = Num (Fin 100),
       discountRate = Num (Fin 0), vatRate = Num (Fin 20), key = ''k1''\<rparr>,
      \<lparr>invoiceItem = ''B'', qty = Num (Fin 3), unitType = ''Adet'', unitPrice = Num (Fin 100),
       discountRate = Num (Fin 0), vatRate = Num (Fin 20), key = ''k2''\<rparr>]"

definition form_state :: "jsval \<Rightarrow> create_line list \<Rightarrow> ui_state" where
  "form_state lump ls =
     \<lparr>invoices = [], lines = [],
      invoiceCreateDraft = \<lparr>invoiceNo = ''A-1'', date = ''2025-12-05'', supplierName = ''Aras'',
                             tevfikatRate = Str ''0'', discountTotal = lump\<rparr>,
      invoiceCreateLines = ls, invoiceCreateOpen = True, alerts = []\<rparr>"

definition uid_example :: "nat \<Rightarrow> string" where
  "uid_example i = ''id'' @ digits_of_nat i"

text \<open>A store with one invoice whose only line is priced at zero.\<close>

definition zero_state :: ui_state where
  "zero_state =
     \<lparr>invoices = [\<lparr>invoiceNo = ''A-1'', date = ''2025-12-05'', supplierName = ''Aras'',
                     tevfikatRate = Num (Fin 0), discountTotal = Num (Fin 40), inv_id = ''inv1''\<rparr>],
      lines = [\<lparr>invoiceItem = ''Numune'', qty = Str ''3'', unitType = ''Adet'',
                 unitPrice = Str ''0'', discountRate = Str ''0'', vatRate = Str ''20'',
                 line_id = ''l1'', invoiceId = ''inv1''\<rparr>],
      invoiceCreateDraft = \<lparr>invoiceNo = '''', date = '''', supplierName = '''',
                             tevfikatRate = Str ''0'', discountTotal = Str ''''\<rparr>,
      invoiceCreateLines = [], invoiceCreateOpen = False, alerts = []\<rparr>"

text \<open>Three units at 3 with 20 per cent VAT, seven of them.\<close>

definition line_3x7 :: line_fields where
  "line_3x7 = \<lparr>invoiceItem = ''Kalem'', qty = Str ''7'', unitType = ''Adet'',
                 unitPrice = Str ''3'', discountRate = Str ''0'', vatRate = Str ''20''\<rparr>"

text \<open>
  A price and a quantity of \<open>10^155\<close> each: written with an exponent, which the second
  variant's parser reads, and written out in 156 digits for the first.
\<close>

definition line_huge_v2 :: line_fields where
  "line_huge_v2 = \<lparr>invoiceItem = ''Kalem'', qty = Str ''1e155'', unitType = ''Adet'',
                     unitPrice = Str ''1e155'', discountRate = Str ''0'', vatRate = Str ''20''\<rparr>"

definition line_huge :: line_fields where
  "line_huge = \<lparr>invoiceItem = ''Kalem'', qty = Str (CHR ''1'' # replicate 155 (CHR ''0'')),
                  unitType = ''Adet'',
                  unitPrice = Str (CHR ''1'' # replicate 155 (CHR ''0'')),
                  discountRate = Str ''0'', vatRate = Str ''20''\<rparr>"

text \<open>The line of the specification's example: 20 packets at 165, 5 per cent off, 20 per cent VAT.\<close>

definition line_a4 :: line_fields where
  "line_a4 = \<lparr>invoiceItem = ''A4 Fotokopi Kagidi'', qty = Str ''20'', unitType = ''Paket'',
                unitPrice = Str ''165'', discountRate = Str ''5'', vatRate = Str ''20''\<rparr>"

text \<open>Two lines weighing 1 and 2.\<close>

definition lines_1_2 :: "line_fields list" where
  "lines_1_2 =
     [\<lparr>invoiceItem = ''A'', qty = Str ''1'', unitType = ''Adet'', unitPrice = Str ''1'',
       discountRate = Str ''0'', vatRate = Str ''20''\<rparr>,
      \<lparr>invoiceItem = ''B'', qty = Str ''1'', unitType = ''Adet'', unitPrice = Str ''2'',
       discountRate = Str ''0'', vatRate = Str ''20''\<rparr>]"

text \<open>
  Two rows of the purchases view: the masks of the sample data, priced \<open>7,5\<close>, and a
  free sample priced 0.
\<close>

definition row_maske :: view_row where
  "row_maske = \<lparr>invoiceItem = ''Maske (FFP2)'', qty = Str ''200'', unitType = ''Adet'',
                  unitPrice = Str ''7,5'', discountRate = Str ''0'', vatRate = Str ''20'',
                  line_id = ''l5'', invoiceId = ''invB'',
                  row_date = ''2025-12-12'', row_supplierName = ''Delta Tedarik Ltd.'',
                  row_invoiceNo = ''B-2025-1212''\<rparr>"

definition row_numune :: view_row where
  "row_numune = \<lparr>invoiceItem = ''Numune'', qty = Str ''3'', unitType = ''Adet'',
                   unitPrice = Str ''0'', discountRate = Str ''0'', vatRate = Str ''20'',
                   line_id = ''l1'', invoiceId = ''inv1'',
                   row_date = ''2025-12-05'', row_supplierName = ''Aras'',
                   row_invoiceNo = ''A-1''\<rparr>"

definition row_kucuk :: view_row where
  "row_kucuk = \<lparr>invoiceItem = ''Vida'', qty = Str ''1'', unitType = ''Adet'',
                  unitPrice = Str ''0,0000001'', discountRate = Str ''0'', vatRate = Str ''0'',
                  line_id = ''l2'', invoiceId = ''inv1'',
                  row_date = ''2025-12-05'', row_supplierName = ''Aras'',
                  row_invoiceNo = ''A-1''\<rparr>"

text \<open>
  A price of \<open>1.6e308\<close> with 20 per cent VAT, as the second variant reads it: one unit, and
  half a unit.
\<close>

definition line_over_v2 :: line_fields where
  "line_over_v2 = \<lparr>invoiceItem = ''Kalem'', qty = Str ''1'', unitType = ''Adet'',
                     unitPrice = Str ''1.6e308'', discountRate = Str ''0'', vatRate = Str ''20''\<rparr>"

definition line_half_v2 :: line_fields where
  "line_half_v2 = \<lparr>invoiceItem = ''Kalem'', qty = Str ''0.5'', unitType = ''Adet'',
                     unitPrice = Str ''1.6e308'', discountRate = Str ''0'', vatRate = Str ''20''\<rparr>"

section \<open>Rounding to binary64\<close>

lemma powi2_less_iff: "(2::rat) powi a < 2 powi b \<longleftrightarrow> a < b"
proof
  assume l: "(2::rat) powi a < 2 powi b"
  show "a < b"
  proof (rule ccontr)
    assume "\<not> a < b"
    then have "b \<le> a" by simp
    then have "(2::rat) powi b \<le> 2 powi a" by (intro power_int_increasing) simp_all
    with l show False by simp
  qed
next
  assume "a < b"
  then show "(2::rat) powi a < 2 powi b" by (intro power_int_strict_increasing) simp_all
qed

lemma powi2_le_iff: "(2::rat) powi a \<le> 2 powi b \<longleftrightarrow> a \<le> b"
  using powi2_less_iff [of b a] by (simp add: not_less [symmetric])

lemma powi2_inv: "(2::rat) powi (- k) * 2 powi k = 1"
proof -
  have "(2::rat) powi (- k + k) = 2 powi (- k) * 2 powi k" by (rule power_int_add) simp
  then show ?thesis by simp
qed

lemma bitlen_pos_bounds:
  assumes "0 < (n::int)"
  shows "(2::rat) powi (bitlen n - 1) \<le> of_int n" "of_int n < (2::rat) powi bitlen n"
proof -
  have l: "1 \<le> bitlen n"
    using assms bitlen_eq_zero_iff [of n] bitlen_nonneg [of n] by linarith
  have b: "2 ^ nat (bitlen n - 1) \<le> n" "n < 2 ^ nat (bitlen n)"
    using bitlen_bounds [OF assms] by auto
  have "(of_int (2 ^ nat (bitlen n - 1)) :: rat) \<le> of_int n" using b(1) by (simp only: of_int_le_iff)
  then show "(2::rat) powi (bitlen n - 1) \<le> of_int n" using l by (simp add: power_int_nonneg_exp)
  have "(of_int n :: rat) < of_int (2 ^ nat (bitlen n))" using b(2) by (simp only: of_int_less_iff)
  then show "of_int n < (2::rat) powi bitlen n" using l by (simp add: power_int_nonneg_exp)
qed

lemma ilog2_bounds:
  assumes "0 < x"
  shows "2 powi ilog2 x \<le> x \<and> x < 2 powi (ilog2 x + 1)"
proof (cases "1 \<le> x")
  case True
  then have f: "0 < \<lfloor>x\<rfloor>" by simp
  have e: "ilog2 x = bitlen \<lfloor>x\<rfloor> - 1" using True by (simp add: ilog2_def)
  have "(2::rat) powi (bitlen \<lfloor>x\<rfloor> - 1) \<le> of_int \<lfloor>x\<rfloor>" by (rule bitlen_pos_bounds [OF f])
  also have "\<dots> \<le> x" by simp
  finally have lo: "2 powi ilog2 x \<le> x" unfolding e .
  have "\<lfloor>x\<rfloor> < 2 ^ nat (bitlen \<lfloor>x\<rfloor>)" using bitlen_bounds [OF f] by simp
  then have "\<lfloor>x\<rfloor> + 1 \<le> 2 ^ nat (bitlen \<lfloor>x\<rfloor>)" by simp
  then have "(of_int (\<lfloor>x\<rfloor> + 1) :: rat) \<le> of_int (2 ^ nat (bitlen \<lfloor>x\<rfloor>))"
    by (simp only: of_int_le_iff)
  moreover have "x < of_int (\<lfloor>x\<rfloor> + 1)" by linarith
  ultimately have "x < of_int (2 ^ nat (bitlen \<lfloor>x\<rfloor>))" by (rule less_le_trans [rotated])
  then have "x < 2 powi (ilog2 x + 1)"
    unfolding e using bitlen_nonneg [of "\<lfloor>x\<rfloor>"] by (simp add: power_int_nonneg_exp)
  with lo show ?thesis by simp
next
  case False
  define c where "c = \<lceil>1 / x\<rceil>"
  define m where "m = bitlen (c - 1)"
  have e: "ilog2 x = - m" using False by (simp add: ilog2_def c_def m_def)
  have y: "1 < 1 / x" using False assms by simp
  then have c: "0 < c - 1" unfolding c_def by (simp add: less_ceiling_iff)
  have cy: "1 / x \<le> of_int c" "of_int (c - 1) < 1 / x"
    unfolding c_def by (simp_all add: ceiling_correct)
  have b: "(2::rat) powi (m - 1) \<le> of_int (c - 1)" "of_int (c - 1) < (2::rat) powi m"
    unfolding m_def by (rule bitlen_pos_bounds [OF c])+
  have l: "1 \<le> m" unfolding m_def
    using c bitlen_eq_zero_iff [of "c - 1"] bitlen_nonneg [of "c - 1"] by linarith
  have "c - 1 < 2 ^ nat m" using bitlen_bounds [OF c] by (simp add: m_def)
  then have "c \<le> 2 ^ nat m" by simp
  then have "(of_int c :: rat) \<le> of_int (2 ^ nat m)" by (simp only: of_int_le_iff)
  then have "(of_int c :: rat) \<le> 2 powi m" using l by (simp add: power_int_nonneg_exp)
  with cy(1) have "1 / x \<le> 2 powi m" by simp
  then have "1 \<le> 2 powi m * x" using assms by (simp add: pos_divide_le_eq)
  then have "2 powi (- m) * 1 \<le> 2 powi (- m) * (2 powi m * x)"
    by (intro mult_left_mono) simp_all
  also have "\<dots> = (2 powi (- m) * 2 powi m) * x" by simp
  also have "(2::rat) powi (- m) * 2 powi m = 1" by (rule powi2_inv)
  finally have lo: "2 powi ilog2 x \<le> x" unfolding e by simp
  have "(2::rat) powi (m - 1) < 1 / x" using b(1) cy(2) by simp
  then have "2 powi (m - 1) * x < 1" using assms by (simp add: pos_less_divide_eq)
  then have "2 powi (- (m - 1)) * (2 powi (m - 1) * x) < 2 powi (- (m - 1)) * 1"
    by (intro mult_strict_left_mono) simp_all
  moreover have "(2::rat) powi (- (m - 1)) * (2 powi (m - 1) * x)
      = (2 powi (- (m - 1)) * 2 powi (m - 1)) * x" by simp
  moreover have "(2::rat) powi (- (m - 1)) * 2 powi (m - 1) = 1" by (rule powi2_inv)
  ultimately have "x < 2 powi (- (m - 1))" by (simp only: mult_1 mult_1_right)
  moreover have "- (m - 1) = ilog2 x + 1" unfolding e by simp
  ultimately have "x < 2 powi (ilog2 x + 1)" by (simp only:)
  with lo show ?thesis by simp
qed

lemma ilog2_unique:
  assumes "0 < x" "2 powi e \<le> x" "x < 2 powi (e + 1)"
  shows "ilog2 x = e"
proof -
  from ilog2_bounds [OF assms(1)]
  have b: "2 powi ilog2 x \<le> x" "x < 2 powi (ilog2 x + 1)" by auto
  have "(2::rat) powi e < 2 powi (ilog2 x + 1)" using assms(2) b(2) by simp
  then have 1: "e < ilog2 x + 1" by (simp add: powi2_less_iff)
  have "(2::rat) powi ilog2 x < 2 powi (e + 1)" using assms(3) b(1) by simp
  then have 2: "ilog2 x < e + 1" by (simp add: powi2_less_iff)
  from 1 2 show ?thesis by simp
qed

lemma ilog2_mono:
  assumes "0 < x" "x \<le> y"
  shows "ilog2 x \<le> ilog2 y"
proof -
  have "0 < y" using assms by simp
  from ilog2_bounds [OF assms(1)] ilog2_bounds [OF this]
  have "(2::rat) powi ilog2 x < 2 powi (ilog2 y + 1)" using assms(2) by linarith
  then show ?thesis by (simp add: powi2_less_iff)
qed

lemma round_half_even_of_int [simp]: "round_half_even (of_int n) = n"
  by (simp add: round_half_even_def)

lemma round_half_even_cases:
  obtains (down) "round_half_even y = \<lfloor>y\<rfloor>" "y - of_int \<lfloor>y\<rfloor> \<le> 1/2"
        | (up) "round_half_even y = \<lfloor>y\<rfloor> + 1" "1/2 \<le> y - of_int \<lfloor>y\<rfloor>"
  by (cases "y - of_int \<lfloor>y\<rfloor> < 1/2"; cases "1/2 < y - of_int \<lfloor>y\<rfloor>"; cases "even \<lfloor>y\<rfloor>")
     (simp_all add: round_half_even_def Let_def)

lemma round_half_even_bounds:
  "of_int (round_half_even y) \<le> y + 1/2" "y - 1/2 \<le> of_int (round_half_even y)"
proof -
  have f: "of_int \<lfloor>y\<rfloor> \<le> y" "y < of_int \<lfloor>y\<rfloor> + 1" by linarith+
  show "of_int (round_half_even y) \<le> y + 1/2"
  proof (cases y rule: round_half_even_cases)
    case down
    show ?thesis unfolding down(1) using f down(2) by linarith
  next
    case up
    show ?thesis unfolding up(1) using f up(2) by simp
  qed
  show "y - 1/2 \<le> of_int (round_half_even y)"
  proof (cases y rule: round_half_even_cases)
    case down
    show ?thesis unfolding down(1) using f down(2) by linarith
  next
    case up
    show ?thesis unfolding up(1) using f up(2) by simp
  qed
qed

lemma round_half_even_mono:
  assumes "x \<le> y"
  shows "round_half_even x \<le> round_half_even y"
proof (cases "\<lfloor>x\<rfloor> = \<lfloor>y\<rfloor>")
  case True
  have "x - of_int \<lfloor>x\<rfloor> \<le> y - of_int \<lfloor>x\<rfloor>" using assms by simp
  then show ?thesis using True
    by (cases "x - of_int \<lfloor>x\<rfloor> < 1/2"; cases "1/2 < x - of_int \<lfloor>x\<rfloor>";
        cases "y - of_int \<lfloor>x\<rfloor> < 1/2"; cases "1/2 < y - of_int \<lfloor>x\<rfloor>"; cases "even \<lfloor>x\<rfloor>")
       (simp_all add: round_half_even_def Let_def)
next
  case False
  then have "\<lfloor>x\<rfloor> + 1 \<le> \<lfloor>y\<rfloor>" using floor_mono [OF assms] by linarith
  moreover have "round_half_even x \<le> \<lfloor>x\<rfloor> + 1"
    by (cases x rule: round_half_even_cases) simp_all
  moreover have "\<lfloor>y\<rfloor> \<le> round_half_even y"
    by (cases y rule: round_half_even_cases) simp_all
  ultimately show ?thesis by linarith
qed

lemma round_half_even_alt:
  assumes "\<lfloor>y\<rfloor> = f" "y - of_int f = d"
  shows "round_half_even y =
    (if d < 1/2 then f else if 1/2 < d then f + 1 else if even f then f else f + 1)"
  unfolding round_half_even_def Let_def assms(1) assms(2) ..

lemma round_half_even_minus: "round_half_even (- y) = - round_half_even y"
proof (cases "y \<in> \<int>")
  case True
  then obtain n where "y = of_int n" by (auto elim: Ints_cases)
  then have "- y = of_int (- n)" by simp
  then show ?thesis using \<open>y = of_int n\<close> by (simp only: round_half_even_of_int)
next
  case False
  define f d where "f = \<lfloor>y\<rfloor>" and "d = y - of_int \<lfloor>y\<rfloor>"
  from False have "of_int \<lfloor>y\<rfloor> \<noteq> y" by (metis Ints_of_int)
  then have lt: "of_int \<lfloor>y\<rfloor> < y" "y < of_int \<lfloor>y\<rfloor> + 1" by linarith+
  have fl: "\<lfloor>- y\<rfloor> = - f - 1"
    unfolding f_def by (rule floor_unique) (use lt in simp_all)
  have dm: "- y - of_int (- f - 1) = 1 - d" by (simp add: f_def d_def)
  have p: "round_half_even y =
    (if d < 1/2 then f else if 1/2 < d then f + 1 else if even f then f else f + 1)"
    by (rule round_half_even_alt) (simp_all add: f_def d_def)
  have m: "round_half_even (- y) =
    (if 1 - d < 1/2 then - f - 1 else if 1/2 < 1 - d then - f - 1 + 1
     else if even (- f - 1) then - f - 1 else - f - 1 + 1)"
    by (rule round_half_even_alt [OF fl dm])
  show ?thesis unfolding p m
    by (cases "d < 1/2"; cases "1/2 < d") simp_all
qed

lemma quantum_expo: "quantum x = 2 powi (expo x - 52)"
  by (simp add: quantum_def)

lemma quantum_pos [simp]: "0 < quantum x"
  by (simp add: quantum_def)

lemma quantum_nonneg [simp]: "0 \<le> quantum x"
  by (simp add: quantum_def)

lemma quantum_minus [simp]: "quantum (- x) = quantum x"
  by (simp add: quantum_def expo_def)

lemma rnd_0 [simp]: "rnd 0 = 0"
  by (simp add: rnd_def)

lemma rnd_minus: "rnd (- x) = - rnd x"
  by (simp add: rnd_def round_half_even_minus)

lemma rnd_eq: "x \<noteq> 0 \<Longrightarrow> rnd x = of_int (round_half_even (x / quantum x)) * quantum x"
  by (simp add: rnd_def)

lemma expo_pos_less:
  assumes "0 < x"
  shows "x < 2 powi (expo x + 1)"
proof -
  have "x < 2 powi (ilog2 x + 1)" using ilog2_bounds [OF assms] by simp
  also have "\<dots> \<le> 2 powi (expo x + 1)" using assms by (simp add: powi2_le_iff expo_def)
  finally show ?thesis .
qed

lemma expo_mono:
  assumes "0 < x" "x \<le> y"
  shows "expo x \<le> expo y"
  using ilog2_mono [OF assms] assms by (simp add: expo_def)

lemma powi2_split: "(2::rat) powi (e + 1) = of_int (2 ^ 53) * 2 powi (e - 52)"
proof -
  have "(2::rat) powi (53 + (e - 52)) = 2 powi 53 * 2 powi (e - 52)"
    by (rule power_int_add) simp
  moreover have "53 + (e - 52) = e + 1" by simp
  moreover have "(2::rat) powi 53 = of_int (2 ^ 53)" by simp
  ultimately show ?thesis by (simp only:)
qed

lemma powi2_split': "(2::rat) powi e = of_int (2 ^ 52) * 2 powi (e - 52)"
proof -
  have "(2::rat) powi (52 + (e - 52)) = 2 powi 52 * 2 powi (e - 52)"
    by (rule power_int_add) simp
  moreover have "52 + (e - 52) = e" by simp
  moreover have "(2::rat) powi 52 = of_int (2 ^ 52)" by simp
  ultimately show ?thesis by (simp only:)
qed

lemma rnd_nonneg:
  assumes "0 \<le> x"
  shows "0 \<le> rnd x"
proof (cases "x = 0")
  case False
  have "0 \<le> x / quantum x" using assms by (intro divide_nonneg_pos) simp_all
  from round_half_even_mono [OF this] have "0 \<le> round_half_even (x / quantum x)"
    using round_half_even_of_int [of 0] by simp
  then show ?thesis using False by (simp add: rnd_eq)
qed simp

lemma rnd_pos_upper:
  assumes "0 < x"
  shows "rnd x \<le> 2 powi (expo x + 1)"
proof -
  have "x / quantum x \<le> of_int (2 ^ 53)"
    using expo_pos_less [OF assms] unfolding powi2_split [of "expo x"] quantum_expo
    by (simp add: pos_divide_le_eq)
  from round_half_even_mono [OF this]
  have "round_half_even (x / quantum x) \<le> 2 ^ 53" by (simp only: round_half_even_of_int)
  then have "(of_int (round_half_even (x / quantum x)) :: rat) \<le> of_int (2 ^ 53)"
    by (simp only: of_int_le_iff)
  then have "of_int (round_half_even (x / quantum x)) * quantum x \<le> of_int (2 ^ 53) * quantum x"
    by (intro mult_right_mono) simp_all
  then show ?thesis using assms unfolding powi2_split [of "expo x"] quantum_expo [symmetric]
    by (simp add: rnd_eq)
qed

lemma rnd_pos_lower:
  assumes "0 < x" "2 powi expo x \<le> x"
  shows "2 powi expo x \<le> rnd x"
proof -
  have "of_int (2 ^ 52) \<le> x / quantum x"
    using assms(2) unfolding powi2_split' [of "expo x"] quantum_expo
    by (simp add: pos_le_divide_eq)
  from round_half_even_mono [OF this]
  have "2 ^ 52 \<le> round_half_even (x / quantum x)" by (simp only: round_half_even_of_int)
  then have "(of_int (2 ^ 52) :: rat) \<le> of_int (round_half_even (x / quantum x))"
    by (simp only: of_int_le_iff)
  then have "of_int (2 ^ 52) * quantum x \<le> of_int (round_half_even (x / quantum x)) * quantum x"
    by (intro mult_right_mono) simp_all
  then show ?thesis using assms unfolding powi2_split' [of "expo x"] quantum_expo [symmetric]
    by (simp add: rnd_eq)
qed

lemma expo_normal:
  assumes "0 < x" "- 1022 < expo x"
  shows "2 powi expo x \<le> x"
proof -
  from assms(2) have "expo x = ilog2 x" using assms(1) by (simp add: expo_def max_def split: if_splits)
  then show ?thesis using ilog2_bounds [OF assms(1)] by simp
qed

lemma rnd_mono_pos:
  assumes "0 < x" "x \<le> y"
  shows "rnd x \<le> rnd y"
proof (cases "expo x = expo y")
  case True
  then have q: "quantum y = quantum x" by (simp add: quantum_expo)
  have "x / quantum x \<le> y / quantum x" using assms(2) by (intro divide_right_mono) simp_all
  from round_half_even_mono [OF this]
  have "(of_int (round_half_even (x / quantum x)) :: rat) \<le> of_int (round_half_even (y / quantum x))"
    by (simp only: of_int_le_iff)
  then have "of_int (round_half_even (x / quantum x)) * quantum x
      \<le> of_int (round_half_even (y / quantum x)) * quantum x"
    by (intro mult_right_mono) simp_all
  then show ?thesis using assms by (simp add: rnd_eq q)
next
  case False
  have y: "0 < y" using assms by simp
  from False expo_mono [OF assms] have lt: "expo x + 1 \<le> expo y" by simp
  moreover have "- 1022 \<le> expo x" by (simp add: expo_def)
  ultimately have "- 1022 < expo y" by simp
  from expo_normal [OF y this] have "2 powi expo y \<le> rnd y" by (rule rnd_pos_lower [OF y])
  moreover have "rnd x \<le> 2 powi (expo x + 1)" by (rule rnd_pos_upper [OF assms(1)])
  moreover have "(2::rat) powi (expo x + 1) \<le> 2 powi expo y" using lt by (simp add: powi2_le_iff)
  ultimately show ?thesis by linarith
qed

lemma rnd_mono:
  assumes "x \<le> y"
  shows "rnd x \<le> rnd y"
proof -
  consider "0 < x" | "x \<le> 0" "0 \<le> y" | "y < 0" by linarith
  then show ?thesis
  proof cases
    case 1
    then show ?thesis using assms by (rule rnd_mono_pos)
  next
    case 2
    have "0 \<le> rnd (- x)" using 2(1) by (intro rnd_nonneg) simp
    then have "rnd x \<le> 0" by (simp add: rnd_minus)
    moreover have "0 \<le> rnd y" using 2(2) by (rule rnd_nonneg)
    ultimately show ?thesis by simp
  next
    case 3
    then have "0 < - y" "- y \<le> - x" using assms by simp_all
    from rnd_mono_pos [OF this] show ?thesis by (simp add: rnd_minus)
  qed
qed

lemma rnd_idem_pos:
  assumes "0 < x"
  shows "rnd (rnd x) = rnd x"
proof -
  define r where "r = rnd x"
  define n where "n = round_half_even (x / quantum x)"
  have r: "r = of_int n * quantum x" using assms by (simp add: r_def n_def rnd_eq)
  have r0: "0 \<le> r" unfolding r_def using assms by (intro rnd_nonneg) simp
  have up: "r \<le> 2 powi (expo x + 1)" unfolding r_def by (rule rnd_pos_upper [OF assms])
  show ?thesis
  proof (cases "r = 0")
    case True
    then show ?thesis by (simp add: r_def)
  next
    case False
    with r0 have rpos: "0 < r" by simp
    show ?thesis
    proof (cases "r = 2 powi (expo x + 1)")
      case True
      have "ilog2 r = expo x + 1"
        by (rule ilog2_unique) (simp_all add: True powi2_less_iff)
      moreover have "- 1022 \<le> expo x" by (simp add: expo_def)
      ultimately have e: "expo r = expo x + 1" using rpos by (simp add: expo_def)
      have "r / quantum r = of_int (2 ^ 52)"
        unfolding quantum_expo e unfolding True powi2_split' [of "expo x + 1"] by simp
      then have "round_half_even (r / quantum r) = 2 ^ 52" by (simp only: round_half_even_of_int)
      then have "rnd r = of_int (2 ^ 52) * quantum r" using False by (simp add: rnd_eq)
      also have "\<dots> = r" unfolding quantum_expo e unfolding True powi2_split' [of "expo x + 1"] by simp
      finally show ?thesis by (simp add: r_def)
    next
      case ne: False
      with up have lt: "r < 2 powi (expo x + 1)" by simp
      have e: "expo r = expo x"
      proof (cases "- 1022 < expo x")
        case True
        from expo_normal [OF assms True] have "2 powi expo x \<le> r"
          unfolding r_def by (rule rnd_pos_lower [OF assms])
        with lt rpos have "ilog2 r = expo x" by (intro ilog2_unique) simp_all
        then show ?thesis using rpos True by (simp add: expo_def)
      next
        case False
        moreover have "- 1022 \<le> expo x" by (simp add: expo_def)
        ultimately have ex: "expo x = - 1022" by simp
        have "2 powi ilog2 r \<le> r" using ilog2_bounds [OF rpos] by simp
        with lt have "(2::rat) powi ilog2 r < 2 powi (expo x + 1)" by simp
        then have "ilog2 r < expo x + 1" by (simp only: powi2_less_iff)
        then have "ilog2 r \<le> - 1022" unfolding ex by simp
        then have "expo r = - 1022" using rpos by (simp add: expo_def)
        then show ?thesis using ex by simp
      qed
      then have q: "quantum r = quantum x" by (simp add: quantum_expo)
      have "quantum x \<noteq> 0" by (simp add: quantum_def)
      then have "r / quantum x = of_int n" by (simp add: r)
      then have "r / quantum r = of_int n" by (simp only: q)
      then have "round_half_even (r / quantum r) = n" by (simp only: round_half_even_of_int)
      then have "rnd r = of_int n * quantum r" using \<open>r \<noteq> 0\<close> by (simp add: rnd_eq)
      then show ?thesis unfolding q using r by (simp add: r_def)
    qed
  qed
qed

lemma rnd_idem [simp]: "rnd (rnd x) = rnd x"
proof -
  consider "0 < x" | "x = 0" | "x < 0" by linarith
  then show ?thesis
  proof cases
    case 1
    then show ?thesis by (rule rnd_idem_pos)
  next
    case 2
    then show ?thesis by simp
  next
    case 3
    then have "0 < - x" by simp
    from rnd_idem_pos [OF this] show ?thesis by (simp add: rnd_minus)
  qed
qed

section \<open>Evaluation on concrete inputs\<close>

lemma bitlen_numeral_simps:
  "bitlen 1 = 1"
  "bitlen (numeral Num.One) = 1"
  "bitlen (numeral (Num.Bit0 n)) = bitlen (numeral n) + 1"
  "bitlen (numeral (Num.Bit1 n)) = bitlen (numeral n) + 1"
  "bitlen (- numeral n) = 0"
  by (subst compute_bitlen, simp)+

lemma floor_rat_numeral_simps:
  "\<lfloor>numeral a / numeral b :: rat\<rfloor> = numeral a div numeral b"
  "\<lfloor>- (numeral a / numeral b) :: rat\<rfloor> = - numeral a div numeral b"
  "\<lfloor>1 / numeral b :: rat\<rfloor> = 1 div numeral b"
  "\<lfloor>- (1 / numeral b) :: rat\<rfloor> = - 1 div numeral b"
  "\<lceil>numeral a / numeral b :: rat\<rceil> = - (- numeral a div numeral b)"
  "\<lceil>- (numeral a / numeral b) :: rat\<rceil> = - (numeral a div numeral b)"
  "\<lceil>1 / numeral b :: rat\<rceil> = - (- 1 div numeral b)"
  "\<lceil>- (1 / numeral b) :: rat\<rceil> = - (1 div numeral b)"
  using floor_divide_of_int_eq [of "numeral a" "numeral b", where ?'a = rat]
    floor_divide_of_int_eq [of "- numeral a" "numeral b", where ?'a = rat]
    floor_divide_of_int_eq [of 1 "numeral b", where ?'a = rat]
    floor_divide_of_int_eq [of "- 1" "numeral b", where ?'a = rat]
  by (simp_all add: ceiling_def)

lemma shortest_decimal_numeral:
  "shortest_decimal x n k (numeral v) =
     (let p = 10 powi (n - int k); lo = \<lfloor>x / p\<rfloor>; hi = lo + 1;
          oklo = (rd (of_int lo * p) = Fin x); okhi = (rd (of_int hi * p) = Fin x)
      in if oklo \<and> (\<not> okhi \<or> x - of_int lo * p < of_int hi * p - x
                      \<or> (x - of_int lo * p = of_int hi * p - x \<and> even lo))
         then (nat lo, n - int k)
         else if okhi then (nat hi, n - int k)
         else shortest_decimal x n (Suc k) (pred_numeral v))"
  by (simp only: numeral_eq_Suc shortest_decimal.simps)

lemma replicate_numeral_eval: "replicate (numeral v) x = x # replicate (pred_numeral v) x"
  by (simp add: numeral_eq_Suc)

lemmas num_eval = rd_def rnd_def quantum_def expo_def ilog2_def round_half_even_def Let_def
  fadd_def fsub_def fmul_def fdiv_def fneg_def js_lt_def js_le_def Math_max_def Math_min_def
  sign_of_def inf_of_sign_def isFinite_def truthy_def clamp_def
  bitlen_numeral_simps floor_rat_numeral_simps

lemmas str_eval = is_space_def is_digit_def hex_val_def digit_char_def nat_of_digits_def
  digits_of_nat.simps trim_def lastIndexOf_def zeros_tail_def parse_exponent_def
  parse_unsigned_decimal_def parse_decimal_def parse_nondecimal_def StringToNumber_def
  dec_exp_def strip_zeros_def pos_toString_def Number_toString_def toFixed_def
  String_or_empty_def shortest_decimal_numeral replicate_numeral_eval

lemmas js_eval = num_eval str_eval parseSmartNumber_def toNumber_def toNumber_v2_def
  formatForInput_def calcLine_def calcLine_v2_def deriveFromUnitNet_def
  deriveFromUnitVatIncl_def deriveFromUnitNet_v2_def deriveFromUnitVatIncl_v2_def
  weight_def weight_v2_def sum_weights_def by_id_def

section \<open>Properties of the rounded operations\<close>

lemma ilog2_ge_iff:
  assumes "0 < x"
  shows "k \<le> ilog2 x \<longleftrightarrow> 2 powi k \<le> x"
proof
  assume "k \<le> ilog2 x"
  then have "(2::rat) powi k \<le> 2 powi ilog2 x" by (simp only: powi2_le_iff)
  also have "\<dots> \<le> x" using ilog2_bounds [OF assms] by simp
  finally show "2 powi k \<le> x" .
next
  assume "2 powi k \<le> x"
  also have "x < 2 powi (ilog2 x + 1)" using ilog2_bounds [OF assms] by simp
  finally have "k < ilog2 x + 1" by (simp only: powi2_less_iff)
  then show "k \<le> ilog2 x" by simp
qed

lemma overflow_iff: "r \<noteq> 0 \<and> 1024 \<le> ilog2 \<bar>r\<bar> \<longleftrightarrow> 2 powi 1024 \<le> \<bar>r\<bar>"
proof (cases "r = 0")
  case True
  then show ?thesis by simp
next
  case False
  then have "0 < \<bar>r\<bar>" by simp
  from ilog2_ge_iff [OF this, of 1024] False show ?thesis by simp
qed

lemma rd_alt:
  "rd x = (if 2 powi 1024 \<le> \<bar>rnd x\<bar> then (if 0 < rnd x then PInf else NInf) else Fin (rnd x))"
  unfolding rd_def Let_def overflow_iff ..

lemma rd_not_NaN [simp]: "rd x \<noteq> NaN"
  by (simp add: rd_alt)

lemma is_double_iff: "is_double r \<longleftrightarrow> rnd r = r \<and> \<bar>r\<bar> < 2 powi 1024"
  unfolding is_double_def rd_alt by (auto simp only: number.inject number.distinct not_le split: if_splits)

lemma rd_Fin_is_double:
  assumes "rd x = Fin r"
  shows "is_double r" "r = rnd x"
proof -
  from assms have "r = rnd x" "\<bar>rnd x\<bar> < 2 powi 1024"
    unfolding rd_alt by (auto split: if_splits simp: not_le)
  then show "is_double r" "r = rnd x" by (simp_all add: is_double_iff)
qed

lemma rd_double [simp]: "is_double r \<Longrightarrow> rd r = Fin r"
  by (simp add: is_double_def)

lemma wf_rd [simp]: "wf_number (rd x)"
  by (cases "rd x") (auto simp: wf_number_def dest: rd_Fin_is_double(1))

lemma is_double_consts [simp]: "is_double 0" "is_double 1" "is_double 100"
  by (simp_all add: is_double_def num_eval cong: let_weak_cong)

lemma is_double_max: "is_double a \<Longrightarrow> is_double b \<Longrightarrow> is_double (max a b)"
  by (simp add: max_def)

lemma is_double_min: "is_double a \<Longrightarrow> is_double b \<Longrightarrow> is_double (min a b)"
  by (simp add: min_def)

lemma js_le_Fin [simp]: "js_le (Fin x) (Fin y) \<longleftrightarrow> x \<le> y"
  by (auto simp: js_le_def js_lt_def)

lemma js_lt_Fin [simp]: "js_lt (Fin x) (Fin y) \<longleftrightarrow> x < y"
  by (simp add: js_lt_def)

lemma js_le_PInf [simp]: "js_le a PInf \<longleftrightarrow> a \<noteq> NaN"
  by (cases a) (simp_all add: js_le_def js_lt_def)

lemma rd_mono:
  assumes "x \<le> y"
  shows "js_le (rd x) (rd y)"
proof -
  have m: "rnd x \<le> rnd y" using assms by (rule rnd_mono)
  show ?thesis unfolding rd_alt using m
    by (auto simp: js_le_def js_lt_def abs_if not_le split: if_splits)
qed

text \<open>A rounded value that lies between zero and a binary64 number is finite.\<close>

lemma rd_between:
  assumes "0 \<le> x" "x \<le> b" "is_double b"
  shows "\<exists>r. rd x = Fin r \<and> 0 \<le> r \<and> r \<le> b \<and> is_double r"
proof -
  have b: "rnd b = b" "\<bar>b\<bar> < 2 powi 1024" using assms(3) by (simp_all add: is_double_iff)
  have lo: "0 \<le> rnd x" using assms(1) by (rule rnd_nonneg)
  have hi: "rnd x \<le> b" using rnd_mono [OF assms(2)] b(1) by simp
  from lo hi b(2) have "\<bar>rnd x\<bar> < 2 powi 1024" by simp
  then have "rd x = Fin (rnd x)" by (simp add: rd_alt)
  moreover have "is_double (rnd x)" using \<open>\<bar>rnd x\<bar> < 2 powi 1024\<close> by (simp add: is_double_iff)
  ultimately show ?thesis using lo hi by blast
qed

lemma rd_between':
  assumes "a \<le> x" "x \<le> b" "is_double a" "is_double b" "0 \<le> a"
  shows "\<exists>r. rd x = Fin r \<and> a \<le> r \<and> r \<le> b \<and> is_double r"
proof -
  from rd_between [of x b] assms obtain r where r: "rd x = Fin r" "r \<le> b" "is_double r"
    by force
  have "rnd a \<le> rnd x" using assms(1) by (rule rnd_mono)
  moreover have "rnd a = a" using assms(3) by (simp add: is_double_iff)
  moreover have "r = rnd x" using r(1) by (rule rd_Fin_is_double(2))
  ultimately show ?thesis using r by simp
qed

text \<open>A rounded non-negative value is a non-negative number or plus infinity.\<close>

lemma rd_nonneg_cases:
  assumes "0 \<le> x"
  obtains (fin) r where "rd x = Fin r" "0 \<le> r" "is_double r" | (inf) "rd x = PInf"
proof -
  have lo: "0 \<le> rnd x" using assms by (rule rnd_nonneg)
  show ?thesis
  proof (cases "2 powi 1024 \<le> \<bar>rnd x\<bar>")
    case True
    have "(0::rat) < 2 powi 1024" by simp
    with True lo have "0 < rnd x" by linarith
    with True have "rd x = PInf" by (simp add: rd_alt)
    then show ?thesis by (rule inf)
  next
    case False
    then have "rd x = Fin (rnd x)" by (simp add: rd_alt)
    moreover have "is_double (rnd x)" using False by (simp add: is_double_iff)
    ultimately show ?thesis using lo by (intro fin [of "rnd x"])
  qed
qed

section \<open>What the parsers return\<close>

lemma wf_number_simps [simp]:
  "wf_number NaN" "wf_number PInf" "wf_number NInf" "wf_number (Fin r) = is_double r"
  by (simp_all add: wf_number_def)

lemma wf_parse_nondecimal: "parse_nondecimal s = Some n \<Longrightarrow> wf_number n"
  by (auto simp only: parse_nondecimal_def option.inject option.distinct list.case wf_rd
      split: list.split_asm if_split_asm)

lemma wf_parse_decimal: "parse_decimal s = Some n \<Longrightarrow> wf_number n"
  by (auto simp only: parse_decimal_def Let_def option.inject option.distinct option.case
      wf_rd wf_number_simps split: option.split_asm if_split_asm)

lemma wf_StringToNumber [simp]: "wf_number (StringToNumber s)"
proof -
  have z: "wf_number (Fin 0)" by simp
  show ?thesis unfolding StringToNumber_def Let_def
    by (auto simp only: z wf_number_simps(1) option.case split: option.split if_split
        dest: wf_parse_nondecimal wf_parse_decimal)
qed

lemma finite_or_zero:
  assumes "wf_number n"
  shows "\<exists>r. (if isFinite n then n else Fin 0) = Fin r \<and> is_double r"
  using assms by (cases n) (simp_all add: isFinite_def)

lemma parseSmartNumber_shape:
  "(\<exists>n. v = Num n) \<or>
   (\<exists>A B N. parseSmartNumber v =
      (if A then Fin 0 else if B then Fin 0
       else if isFinite (StringToNumber N) then StringToNumber N else Fin 0))"
proof (cases v)
  case (Num n)
  then show ?thesis by simp
next
  case Undefined
  show ?thesis unfolding Undefined parseSmartNumber_def Let_def jsval.case
    by (intro disjI2 exI) (rule refl)
next
  case Null
  show ?thesis unfolding Null parseSmartNumber_def Let_def jsval.case
    by (intro disjI2 exI) (rule refl)
next
  case (Str s)
  show ?thesis unfolding Str parseSmartNumber_def Let_def jsval.case
    by (intro disjI2 exI) (rule refl)
qed

lemma toNumber_double:
  assumes "wf_val v"
  shows "\<exists>r. toNumber v = Fin r \<and> is_double r"
proof -
  from parseSmartNumber_shape [of v] show ?thesis
  proof (elim disjE exE)
    fix n assume v: "v = Num n"
    with assms have "wf_number n" by (simp add: wf_val_def)
    from finite_or_zero [OF this] show ?thesis by (simp add: toNumber_def parseSmartNumber_def v)
  next
    fix A B N
    assume e: "parseSmartNumber v =
      (if A then Fin 0 else if B then Fin 0
       else if isFinite (StringToNumber N) then StringToNumber N else Fin 0)"
    from finite_or_zero [OF wf_StringToNumber, of N]
    show ?thesis unfolding toNumber_def e by (cases A; cases B) auto
  qed
qed

lemma toNumber_v2_double:
  assumes "wf_val v"
  shows "\<exists>r. toNumber_v2 v = Fin r \<and> is_double r"
proof (cases v)
  case (Num n)
  with assms have "wf_number n" by (simp add: wf_val_def)
  from finite_or_zero [OF this] show ?thesis by (simp add: toNumber_v2_def Let_def Num)
next
  case Undefined
  from finite_or_zero [OF wf_StringToNumber] show ?thesis by (simp add: toNumber_v2_def Let_def Undefined)
next
  case Null
  from finite_or_zero [OF wf_StringToNumber] show ?thesis by (simp add: toNumber_v2_def Let_def Null)
next
  case (Str s)
  from finite_or_zero [OF wf_StringToNumber] show ?thesis by (simp add: toNumber_v2_def Let_def Str)
qed

lemma Math_max_Fin [simp]: "Math_max (Fin a) (Fin b) = Fin (max a b)"
  by (simp add: Math_max_def max_def)

lemma Math_min_Fin [simp]: "Math_min (Fin a) (Fin b) = Fin (min a b)"
  by (auto simp add: Math_min_def min_def)

lemma clamp_Fin [simp]: "clamp (Fin r) (Fin a) (Fin b) = Fin (min b (max a r))"
  by (simp add: clamp_def)

section \<open>The arithmetic of a line\<close>

text \<open>
  The nine values of \<open>calcLine\<close> as functions of the four parsed and clamped inputs, and
  what holds of them for a non-negative binary64 price \<open>u\<close>, a non-negative quantity \<open>n\<close>
  and rates \<open>d\<close> and \<open>v\<close> between 0 and 100.
\<close>

lemma line_arithmetic:
  assumes u: "is_double u" "0 \<le> u" and n: "0 \<le> n" and d: "0 \<le> d" "d \<le> 100"
    and v: "0 \<le> v" "v \<le> 100"
  defines "net \<equiv> fmul (Fin u) (fsub (Fin 1) (fdiv (Fin d) (Fin 100)))"
  defines "gross \<equiv> fmul net (fadd (Fin 1) (fdiv (Fin v) (Fin 100)))"
  shows "js_le net (Fin u)"
    and "js_le (fmul net (Fin n)) (fmul (Fin u) (Fin n))"
    and "isFinite (fmul gross (Fin n)) \<longrightarrow> js_le (Fin 0) (fsub (fmul gross (Fin n)) (fmul net (Fin n)))"
proof -
  have "0 \<le> d / 100" "d / 100 \<le> 1" using d by simp_all
  from rd_between [OF this] obtain t where t: "rd (d / 100) = Fin t" "0 \<le> t" "t \<le> 1" by auto
  have "0 \<le> 1 - t" "1 - t \<le> 1" using t by simp_all
  from rd_between [OF this] obtain s where s: "rd (1 - t) = Fin s" "0 \<le> s" "s \<le> 1" by auto
  have "0 \<le> u * s" "u * s \<le> u" using u s by (simp_all add: mult_left_le)
  from rd_between [OF this u(1)] obtain w where
    w: "rd (u * s) = Fin w" "0 \<le> w" "w \<le> u" "is_double w" by auto
  have net: "net = Fin w" by (simp add: net_def fmul_def fsub_def fadd_def fneg_def fdiv_def t s w)
  show "js_le net (Fin u)" using w by (simp add: net)
  have "w * n \<le> u * n" using w n by (simp add: mult_right_mono)
  from rd_mono [OF this] show "js_le (fmul net (Fin n)) (fmul (Fin u) (Fin n))"
    by (simp add: net fmul_def)
  have "0 \<le> v / 100" "v / 100 \<le> 1" using v by simp_all
  from rd_between [OF this] obtain tv where tv: "rd (v / 100) = Fin tv" "0 \<le> tv" "tv \<le> 1" by auto
  have two: "is_double 2" by (simp add: is_double_def num_eval cong: let_weak_cong)
  have "1 \<le> 1 + tv" "1 + tv \<le> 2" using tv by simp_all
  from rd_between' [OF this _ two] obtain m where m: "rd (1 + tv) = Fin m" "1 \<le> m" by auto
  have gross: "gross = rd (w * m)"
    by (simp add: gross_def net fmul_def fadd_def fdiv_def tv m)
  have wm: "w \<le> w * m" using w m by (simp add: mult_le_cancel_left1)
  show "isFinite (fmul gross (Fin n)) \<longrightarrow> js_le (Fin 0) (fsub (fmul gross (Fin n)) (fmul net (Fin n)))"
  proof
    assume f: "isFinite (fmul gross (Fin n))"
    have "0 \<le> w * m" using w m by simp
    then show "js_le (Fin 0) (fsub (fmul gross (Fin n)) (fmul net (Fin n)))"
    proof (cases rule: rd_nonneg_cases)
      case inf
      with f show ?thesis
        by (simp add: gross fmul_def isFinite_def inf_of_sign_def sign_of_def split: if_splits)
    next
      case (fin g)
      have "rnd w \<le> rnd (w * m)" using wm by (rule rnd_mono)
      moreover have "rnd w = w" using w(4) by (simp add: is_double_iff)
      moreover have "g = rnd (w * m)" using fin(1) by (rule rd_Fin_is_double(2))
      ultimately have wg: "w \<le> g" by simp
      from f obtain T where T: "rd (g * n) = Fin T"
        by (auto simp: gross fin fmul_def isFinite_def split: number.splits)
      have "w * n \<le> g * n" using wg n by (simp add: mult_right_mono)
      from rd_mono [OF this] have le: "js_le (rd (w * n)) (Fin T)" by (simp add: T)
      have "0 \<le> w * n" using w n by simp
      then obtain N where N: "rd (w * n) = Fin N" "N \<le> T"
        using le by (cases rule: rd_nonneg_cases) (auto simp: js_le_def js_lt_def)
      have "0 \<le> T - N" using N by simp
      then show ?thesis
        by (cases rule: rd_nonneg_cases)
           (simp_all add: gross fin net fmul_def fsub_def fadd_def fneg_def T N)
    qed
  qed
qed

lemma calcLine_form:
  assumes "wf_line l"
  obtains u n d v where "is_double u" "0 \<le> u" "0 \<le> n" "0 \<le> d" "d \<le> 100" "0 \<le> v" "v \<le> 100"
    "q (calcLine l) = Fin n" "up (calcLine l) = Fin u" "vat (calcLine l) = Fin v"
    "unitNet (calcLine l) = fmul (Fin u) (fsub (Fin 1) (fdiv (Fin d) (Fin 100)))"
    "unitVatIncl (calcLine l) = fmul (unitNet (calcLine l)) (fadd (Fin 1) (fdiv (Fin v) (Fin 100)))"
    "totalNet (calcLine l) = fmul (unitNet (calcLine l)) (Fin n)"
    "totalVatIncl (calcLine l) = fmul (unitVatIncl (calcLine l)) (Fin n)"
    "vatAmount (calcLine l) = fsub (totalVatIncl (calcLine l)) (totalNet (calcLine l))"
proof -
  from assms have w: "wf_val (qty l)" "wf_val (unitPrice l)" "wf_val (discountRate l)" "wf_val (vatRate l)"
    by (simp_all add: wf_line_def)
  from toNumber_double [OF w(1)] obtain n0 where n0: "toNumber (qty l) = Fin n0" by auto
  from toNumber_double [OF w(2)] obtain u0 where u0: "toNumber (unitPrice l) = Fin u0" "is_double u0" by auto
  from toNumber_double [OF w(3)] obtain d0 where d0: "toNumber (discountRate l) = Fin d0" by auto
  from toNumber_double [OF w(4)] obtain v0 where v0: "toNumber (vatRate l) = Fin v0" by auto
  show ?thesis
  proof (rule that [of "max 0 u0" "max 0 n0" "min 100 (max 0 d0)" "min 100 (max 0 v0)"])
    show "is_double (max 0 u0)" using u0(2) by (simp add: is_double_max)
  qed (simp_all add: calcLine_def Let_def n0 u0 d0 v0)
qed

lemma calcLine_v2_form:
  assumes "wf_line l"
  obtains u n d v where "is_double u" "0 \<le> u" "0 \<le> n" "0 \<le> d" "d \<le> 100" "0 \<le> v" "v \<le> 100"
    "q (calcLine_v2 l) = Fin n" "up (calcLine_v2 l) = Fin u" "vat (calcLine_v2 l) = Fin v"
    "unitNet (calcLine_v2 l) = fmul (Fin u) (fsub (Fin 1) (fdiv (Fin d) (Fin 100)))"
    "unitVatIncl (calcLine_v2 l) = fmul (unitNet (calcLine_v2 l)) (fadd (Fin 1) (fdiv (Fin v) (Fin 100)))"
    "totalNet (calcLine_v2 l) = fmul (unitNet (calcLine_v2 l)) (Fin n)"
    "totalVatIncl (calcLine_v2 l) = fmul (unitVatIncl (calcLine_v2 l)) (Fin n)"
    "vatAmount (calcLine_v2 l) = fsub (totalVatIncl (calcLine_v2 l)) (totalNet (calcLine_v2 l))"
proof -
  from assms have w: "wf_val (qty l)" "wf_val (unitPrice l)" "wf_val (discountRate l)" "wf_val (vatRate l)"
    by (simp_all add: wf_line_def)
  from toNumber_v2_double [OF w(1)] obtain n0 where n0: "toNumber_v2 (qty l) = Fin n0" by auto
  from toNumber_v2_double [OF w(2)] obtain u0 where u0: "toNumber_v2 (unitPrice l) = Fin u0" "is_double u0" by auto
  from toNumber_v2_double [OF w(3)] obtain d0 where d0: "toNumber_v2 (discountRate l) = Fin d0" by auto
  from toNumber_v2_double [OF w(4)] obtain v0 where v0: "toNumber_v2 (vatRate l) = Fin v0" by auto
  show ?thesis
  proof (rule that [of "max 0 u0" "max 0 n0" "min 100 (max 0 d0)" "min 100 (max 0 v0)"])
    show "is_double (max 0 u0)" using u0(2) by (simp add: is_double_max)
  qed (simp_all add: calcLine_v2_def Let_def n0 u0 d0 v0)
qed

section \<open>The error of a rounding\<close>

text \<open>
  A rounding to binary64 moves a value by at most half a unit in the last place: by at most
  \<open>2^-53\<close> of its magnitude, or by \<open>2^-1075\<close> where the result is subnormal.
\<close>

lemma rnd_error: "\<bar>rnd x - x\<bar> \<le> quantum x / 2"
proof (cases "x = 0")
  case True
  then show ?thesis by simp
next
  case False
  define Q where "Q = quantum x"
  define y where "y = x / Q"
  have Q: "0 < Q" by (simp add: Q_def)
  have x: "x = y * Q" using Q by (simp add: y_def)
  have r: "rnd x = of_int (round_half_even y) * Q" using False by (simp add: rnd_eq y_def Q_def)
  have "\<bar>of_int (round_half_even y) - y\<bar> \<le> 1 / 2"
    using round_half_even_bounds [of y] by linarith
  then have "\<bar>of_int (round_half_even y) - y\<bar> * Q \<le> 1 / 2 * Q"
    using Q by (intro mult_right_mono) simp_all
  moreover have "rnd x - x = (of_int (round_half_even y) - y) * Q"
  proof -
    have "rnd x - x = of_int (round_half_even y) * Q - y * Q" using r x by simp
    then show ?thesis by (simp add: algebra_simps)
  qed
  ultimately show ?thesis using Q by (simp add: abs_mult Q_def [symmetric])
qed

lemma expo_abs: "expo \<bar>x\<bar> = expo x"
  by (simp add: expo_def)

lemma quantum_bound:
  assumes "x \<noteq> 0"
  shows "quantum x \<le> 2 powi (- 52) * \<bar>x\<bar> + 2 powi (- 1074)"
proof (cases "- 1022 < expo x")
  case True
  have p: "0 < \<bar>x\<bar>" using assms by simp
  from True have "- 1022 < expo \<bar>x\<bar>" by (simp add: expo_abs)
  from expo_normal [OF p this] have "2 powi expo x \<le> \<bar>x\<bar>" by (simp add: expo_abs)
  then have "2 powi (- 52) * 2 powi expo x \<le> 2 powi (- 52) * \<bar>x\<bar>"
    by (intro mult_left_mono) simp_all
  moreover have "quantum x = 2 powi (- 52) * 2 powi expo x"
    by (simp add: quantum_def power_int_diff power_int_minus field_simps)
  moreover have "(0::rat) \<le> 2 powi (- 1074)" by simp
  ultimately show ?thesis by linarith
next
  case False
  then have "expo x = - 1022" by (simp add: expo_def max_def split: if_splits)
  then have "quantum x = 2 powi (- 1074)" by (simp add: quantum_def)
  moreover have "0 \<le> 2 powi (- 52) * \<bar>x\<bar>" by simp
  ultimately show ?thesis by linarith
qed

lemma rnd_err: "\<bar>rnd x - x\<bar> \<le> 2 powi (- 53) * \<bar>x\<bar> + 2 powi (- 1075)"
proof (cases "x = 0")
  case True
  then show ?thesis by simp
next
  case False
  have a: "(2::rat) powi (- 52) = 2 * 2 powi (- 53)" "(2::rat) powi (- 1074) = 2 * 2 powi (- 1075)"
    by (simp_all add: power_int_minus)
  from rnd_error [of x] quantum_bound [OF False] show ?thesis unfolding a by linarith
qed

lemma rd_err:
  assumes "rd x = Fin r"
  shows "\<bar>r - x\<bar> \<le> 2 powi (- 53) * \<bar>x\<bar> + 2 powi (- 1075)"
  using rnd_err [of x] rd_Fin_is_double(2) [OF assms] by simp

lemma err_chain:
  fixes u a X k P T :: rat
  assumes "0 \<le> u" and "\<bar>P - X\<bar> \<le> u * X + a * k" and "\<bar>T - P\<bar> \<le> u * P + a"
  shows "\<bar>T - X\<bar> \<le> (2 * u + u * u) * X + (1 + u) * a * k + a"
proof -
  have "P \<le> X + u * X + a * k" using assms(2) by linarith
  then have "u * P \<le> u * (X + u * X + a * k)" using assms(1) by (rule mult_left_mono)
  then have "\<bar>T - P\<bar> \<le> u * (X + u * X + a * k) + a" using assms(3) by linarith
  then have "\<bar>T - X\<bar> \<le> u * (X + u * X + a * k) + a + (u * X + a * k)" using assms(2) by linarith
  also have "\<dots> = (2 * u + u * u) * X + (1 + u) * a * k + a" by (simp add: algebra_simps)
  finally show ?thesis .
qed

lemma round_twice:
  assumes "0 \<le> w" "0 \<le> m" "0 \<le> n" and g: "rd (w * m) = Fin g" and T: "rd (g * n) = Fin T"
  shows "\<bar>T - w * m * n\<bar>
    \<le> (2 * 2 powi (- 53) + 2 powi (- 53) * 2 powi (- 53)) * (w * m * n)
       + (1 + 2 powi (- 53)) * 2 powi (- 1075) * n + 2 powi (- 1075)"
proof (rule err_chain [where P = "g * n"])
  show "(0::rat) \<le> 2 powi (- 53)" by simp
  have g0: "0 \<le> g" using rd_Fin_is_double(2) [OF g] rnd_nonneg [of "w * m"] assms(1,2) by simp
  have "\<bar>g - w * m\<bar> \<le> 2 powi (- 53) * (w * m) + 2 powi (- 1075)"
    using rd_err [OF g] assms(1,2) by simp
  then have "\<bar>g - w * m\<bar> * n \<le> (2 powi (- 53) * (w * m) + 2 powi (- 1075)) * n"
    using assms(3) by (rule mult_right_mono)
  moreover have "\<bar>g * n - w * m * n\<bar> = \<bar>g - w * m\<bar> * n"
  proof -
    have "g * n - w * m * n = (g - w * m) * n" by (simp add: algebra_simps)
    then show ?thesis using assms(3) by (simp add: abs_mult)
  qed
  ultimately show "\<bar>g * n - w * m * n\<bar> \<le> 2 powi (- 53) * (w * m * n) + 2 powi (- 1075) * n"
    by (simp add: algebra_simps)
  show "\<bar>T - g * n\<bar> \<le> 2 powi (- 53) * (g * n) + 2 powi (- 1075)"
    using rd_err [OF T] g0 assms(3) by simp
qed

text \<open>
  The two orders of multiplying a value \<open>w\<close> by a factor \<open>m\<close> and a quantity \<open>n\<close>, each
  product rounded: the results differ by at most \<open>5 * 2^-53\<close> of the exact product, and
  \<open>2^-1074 * (n + m + 1)\<close> more where a product is subnormal.
\<close>

lemma two_orders:
  assumes w: "0 \<le> w" and m: "0 \<le> m" and n: "0 \<le> n"
    and g: "rd (w * m) = Fin g" and T: "rd (g * n) = Fin T"
    and N: "rd (w * n) = Fin N" and B: "rd (N * m) = Fin B"
  shows "\<bar>T - B\<bar> \<le> 5 * 2 powi (- 53) * (w * m * n) + 2 powi (- 1074) * (n + m + 1)"
proof -
  define u :: rat where "u = 2 powi (- 53)"
  define a :: rat where "a = 2 powi (- 1075)"
  define X where "X = w * m * n"
  have u: "0 \<le> u" "2 * u \<le> 1" by (simp_all add: u_def power_int_minus)
  have a: "0 \<le> a" "2 powi (- 1074) = 2 * a" by (simp_all add: a_def power_int_minus)
  have X: "0 \<le> X" using w m n by (simp add: X_def)
  have 1: "\<bar>T - X\<bar> \<le> (2 * u + u * u) * X + (1 + u) * a * n + a"
    using round_twice [OF w m n g T] by (simp add: u_def a_def X_def)
  have "w * n * m = X" by (simp add: X_def)
  then have 2: "\<bar>B - X\<bar> \<le> (2 * u + u * u) * X + (1 + u) * a * m + a"
    using round_twice [OF w n m N B] by (simp add: u_def a_def)
  have "u * u \<le> u * (1 / 2)" using u by (intro mult_left_mono) simp_all
  then have "2 * (2 * u + u * u) \<le> 5 * u" by simp
  then have 3: "2 * (2 * u + u * u) * X \<le> 5 * u * X" using X by (rule mult_right_mono)
  have "(1 + u) * a \<le> 2 * a" using u a(1) by (intro mult_right_mono) simp_all
  then have 4: "(1 + u) * a * (n + m) \<le> 2 * a * (n + m)"
    by (rule mult_right_mono) (use m n in simp)
  have "\<bar>T - B\<bar> \<le> \<bar>T - X\<bar> + \<bar>B - X\<bar>" by simp
  also have "\<dots> \<le> 2 * (2 * u + u * u) * X + (1 + u) * a * (n + m) + 2 * a"
    using 1 2 by (simp add: algebra_simps)
  also have "\<dots> \<le> 5 * u * X + 2 * a * (n + m) + 2 * a" using 3 4 by simp
  also have "\<dots> = 5 * u * X + 2 * a * (n + m + 1)" by (simp add: algebra_simps)
  finally show ?thesis unfolding a(2) by (simp add: u_def X_def)
qed

section \<open>The parts of a line\<close>

lemma line_parts:
  assumes u: "is_double u" "0 \<le> u" and d: "0 \<le> d" "d \<le> 100" and v: "0 \<le> v" "v \<le> 100"
  shows "\<exists>w m. fmul (Fin u) (fsub (Fin 1) (fdiv (Fin d) (Fin 100))) = Fin w
      \<and> 0 \<le> w \<and> w \<le> u \<and> is_double w
      \<and> fadd (Fin 1) (fdiv (Fin v) (Fin 100)) = Fin m \<and> 1 \<le> m \<and> m \<le> 2"
proof -
  have "0 \<le> d / 100" "d / 100 \<le> 1" using d by simp_all
  from rd_between [OF this] obtain t where t: "rd (d / 100) = Fin t" "0 \<le> t" "t \<le> 1" by auto
  have "0 \<le> 1 - t" "1 - t \<le> 1" using t by simp_all
  from rd_between [OF this] obtain s where s: "rd (1 - t) = Fin s" "0 \<le> s" "s \<le> 1" by auto
  have "0 \<le> u * s" "u * s \<le> u" using u s by (simp_all add: mult_left_le)
  from rd_between [OF this u(1)] obtain w where
    w: "rd (u * s) = Fin w" "0 \<le> w" "w \<le> u" "is_double w" by auto
  have net: "fmul (Fin u) (fsub (Fin 1) (fdiv (Fin d) (Fin 100))) = Fin w"
    by (simp add: fmul_def fsub_def fadd_def fneg_def fdiv_def t s w)
  have "0 \<le> v / 100" "v / 100 \<le> 1" using v by simp_all
  from rd_between [OF this] obtain tv where tv: "rd (v / 100) = Fin tv" "0 \<le> tv" "tv \<le> 1" by auto
  have two: "is_double 2" by (simp add: is_double_def num_eval cong: let_weak_cong)
  have "1 \<le> 1 + tv" "1 + tv \<le> 2" using tv by simp_all
  from rd_between' [OF this _ two] obtain m where m: "rd (1 + tv) = Fin m" "1 \<le> m" "m \<le> 2" by auto
  have "fadd (Fin 1) (fdiv (Fin v) (Fin 100)) = Fin m" by (simp add: fadd_def fdiv_def tv m)
  with net w m show ?thesis by blast
qed

text \<open>
  The VAT-inclusive total, which multiplies by the factor first and by the quantity second,
  against the net total times the factor, which multiplies by the quantity first.
\<close>

lemma totals_close:
  assumes w: "0 \<le> w" and n: "0 \<le> n" and m: "1 \<le> m" "m \<le> 2"
    and fT: "isFinite (fmul (fmul (Fin w) (Fin m)) (Fin n))"
    and fB: "isFinite (fmul (fmul (Fin w) (Fin n)) (Fin m))"
  shows "differ_at_most (fmul (fmul (Fin w) (Fin m)) (Fin n)) (fmul (fmul (Fin w) (Fin n)) (Fin m))
    (5 * 2 powi (- 53) * (w * m * n) + 2 powi (- 1074) * (n + 3))"
proof -
  have m0: "0 \<le> m" using m by simp
  obtain g where g: "rd (w * m) = Fin g"
    using fT by (cases "rd (w * m)")
      (auto simp: fmul_def isFinite_def inf_of_sign_def sign_of_def split: if_splits)
  obtain N where N: "rd (w * n) = Fin N"
    using fB by (cases "rd (w * n)")
      (auto simp: fmul_def isFinite_def inf_of_sign_def sign_of_def split: if_splits)
  obtain T where T: "rd (g * n) = Fin T"
    using fT by (cases "rd (g * n)") (auto simp: fmul_def g isFinite_def)
  obtain B where B: "rd (N * m) = Fin B"
    using fB by (cases "rd (N * m)") (auto simp: fmul_def N isFinite_def)
  have "2 powi (- 1074) * (n + m + 1) \<le> 2 powi (- 1074) * (n + 3)"
    using m by (intro mult_left_mono) simp_all
  with two_orders [OF w m0 n g T N B]
  have "\<bar>T - B\<bar> \<le> 5 * 2 powi (- 53) * (w * m * n) + 2 powi (- 1074) * (n + 3)" by linarith
  then show ?thesis by (simp add: differ_at_most_def fmul_def g N T B)
qed

text \<open>The VAT amount of a line: when it is NaN, and that it is not negative otherwise.\<close>

lemma vat_amount_cases:
  assumes w: "0 \<le> w" "is_double w" and n: "0 \<le> n" and m: "1 \<le> m"
  defines "T \<equiv> fmul (fmul (Fin w) (Fin m)) (Fin n)"
  defines "N \<equiv> fmul (Fin w) (Fin n)"
  shows "fsub T N = NaN \<or> js_le (Fin 0) (fsub T N)"
    and "(fsub T N = NaN) = (N = PInf \<or> T = NaN)"
proof -
  have wm: "w \<le> w * m" using w m by (simp add: mult_le_cancel_left1)
  have wm0: "0 \<le> w * m" and wn0: "0 \<le> w * n" using w m n by simp_all
  have Ncases: "(\<exists>N0. N = Fin N0 \<and> 0 \<le> N0) \<or> N = PInf"
    using wn0 by (cases rule: rd_nonneg_cases) (auto simp: N_def fmul_def)
  have both: "(fsub T N = NaN \<or> js_le (Fin 0) (fsub T N)) \<and> ((fsub T N = NaN) = (N = PInf \<or> T = NaN))"
    using wm0
  proof (cases rule: rd_nonneg_cases)
    case inf
    show ?thesis
    proof (cases "n = 0")
      case True
      then show ?thesis
        by (simp add: T_def N_def fmul_def inf inf_of_sign_def sign_of_def fsub_def fadd_def fneg_def)
    next
      case False
      with n have "0 < n" by simp
      then have T: "T = PInf" by (simp add: T_def fmul_def inf inf_of_sign_def sign_of_def)
      from Ncases show ?thesis
        by (auto simp: T fsub_def fadd_def fneg_def js_le_def js_lt_def)
    qed
  next
    case (fin g)
    have "rnd w \<le> rnd (w * m)" using wm by (rule rnd_mono)
    moreover have "rnd w = w" using w(2) by (simp add: is_double_iff)
    moreover have "g = rnd (w * m)" using fin(1) by (rule rd_Fin_is_double(2))
    ultimately have wg: "w \<le> g" by simp
    have T: "T = rd (g * n)" by (simp add: T_def fmul_def fin)
    have gn0: "0 \<le> g * n" using fin n by simp
    from gn0 show ?thesis
    proof (cases rule: rd_nonneg_cases)
      case inf
      from Ncases show ?thesis
        by (auto simp: T inf fsub_def fadd_def fneg_def js_le_def js_lt_def)
    next
      case (fin T0)
      have "w * n \<le> g * n" using wg n by (simp add: mult_right_mono)
      from rd_mono [OF this] have le: "js_le N (Fin T0)" by (simp add: N_def fmul_def fin)
      with Ncases obtain N0 where N0: "N = Fin N0" "N0 \<le> T0"
        by (auto simp: js_le_def js_lt_def)
      have "0 \<le> T0 - N0" using N0 by simp
      then show ?thesis
        by (cases rule: rd_nonneg_cases)
           (auto simp: T fin N0 fsub_def fadd_def fneg_def js_le_def js_lt_def)
    qed
  qed
  from both show "fsub T N = NaN \<or> js_le (Fin 0) (fsub T N)" by (rule conjunct1)
  from both show "(fsub T N = NaN) = (N = PInf \<or> T = NaN)" by (rule conjunct2)
qed

section \<open>The resolver keeps the other fields\<close>

text \<open>
  C10. \<open>deriveFromUnitNet\<close> and \<open>deriveFromUnitVatIncl\<close> return the draft they were given
  with at most \<open>unitPrice\<close> and \<open>discountRate\<close> replaced: the item, the quantity, the unit
  and the VAT rate are those of the input, and so is every further field the object
  carries (\<open>more\<close>: the \<open>_key\<close> of a form row, the \<open>id\<close> and \<open>invoiceId\<close> of a stored line,
  stated for a stored line \<open>e\<close> by name). In both variants, for every draft and every
  edited value.
\<close>

theorem derive_frame:
  fixes d :: "'a line_fields_scheme" and e :: "'b line_scheme"
  shows
    "same_other_fields (deriveFromUnitNet d v) d
     \<and> same_other_fields (deriveFromUnitVatIncl d v) d
     \<and> same_other_fields (deriveFromUnitNet_v2 d v) d
     \<and> same_other_fields (deriveFromUnitVatIncl_v2 d v) d
     \<and> line_id (deriveFromUnitNet e v) = line_id e
     \<and> invoiceId (deriveFromUnitNet e v) = invoiceId e
     \<and> line_id (deriveFromUnitVatIncl e v) = line_id e
     \<and> invoiceId (deriveFromUnitVatIncl e v) = invoiceId e
     \<and> line_id (deriveFromUnitNet_v2 e v) = line_id e
     \<and> invoiceId (deriveFromUnitNet_v2 e v) = invoiceId e
     \<and> line_id (deriveFromUnitVatIncl_v2 e v) = line_id e
     \<and> invoiceId (deriveFromUnitVatIncl_v2 e v) = invoiceId e"
  by (simp add: same_other_fields_def deriveFromUnitNet_def deriveFromUnitVatIncl_def
      deriveFromUnitNet_v2_def deriveFromUnitVatIncl_v2_def Let_def)

section \<open>The allocator refuses an empty or weightless invoice\<close>

text \<open>
  C7. When the invoice has no line in the collection the allocator reads, or when the sum of
  the weights of its lines (unit price times quantity, each clamped at zero) is not above
  zero, \<open>distributeInvoiceDiscount\<close> shows an alert and queues no update: the state it
  leaves is the state it found, lines and invoices included, with one more alert. In both
  variants.
\<close>

theorem allocator_failure:
  "(filter (\<lambda>x. invoiceId x = invId) (lines snap) = []
      \<or> js_le (sum_weights (map weight (filter (\<lambda>x. invoiceId x = invId) (lines snap)))) (Fin 0)
    \<longrightarrow> (\<exists>a. distributeInvoiceDiscount snap invId dTotal st = st\<lparr>alerts := alerts st @ [a]\<rparr>)
        \<and> lines (distributeInvoiceDiscount snap invId dTotal st) = lines st
        \<and> invoices (distributeInvoiceDiscount snap invId dTotal st) = invoices st)
   \<and> (filter (\<lambda>x. invoiceId x = invId) (lines snap) = []
      \<or> js_le (sum_weights (map weight_v2 (filter (\<lambda>x. invoiceId x = invId) (lines snap)))) (Fin 0)
    \<longrightarrow> (\<exists>a. distributeInvoiceDiscount_v2 snap invId dTotal st = st\<lparr>alerts := alerts st @ [a]\<rparr>)
        \<and> lines (distributeInvoiceDiscount_v2 snap invId dTotal st) = lines st
        \<and> invoices (distributeInvoiceDiscount_v2 snap invId dTotal st) = invoices st)"
  by (auto simp add: distributeInvoiceDiscount_def distributeInvoiceDiscount_v2_def Let_def)

theorem allocator_failure_witness:
  "js_le (sum_weights (map weight (filter (\<lambda>x. invoiceId x = ''inv1'') (lines zero_state)))) (Fin 0)
   \<and> js_le (sum_weights (map weight_v2 (filter (\<lambda>x. invoiceId x = ''inv1'') (lines zero_state)))) (Fin 0)
   \<and> lines (distributeInvoiceDiscount zero_state ''inv1'' (Fin 40) zero_state) = lines zero_state
   \<and> invoices (distributeInvoiceDiscount zero_state ''inv1'' (Fin 40) zero_state) = invoices zero_state
   \<and> lines (distributeInvoiceDiscount_v2 zero_state ''inv1'' (Fin 40) zero_state) = lines zero_state
   \<and> invoices (distributeInvoiceDiscount_v2 zero_state ''inv1'' (Fin 40) zero_state) = invoices zero_state"
proof -
  have h1: "js_le (sum_weights (map weight (filter (\<lambda>x. invoiceId x = ''inv1'') (lines zero_state)))) (Fin 0)"
    by (simp add: js_eval zero_state_def cong: let_weak_cong)
  have h2: "js_le (sum_weights (map weight_v2 (filter (\<lambda>x. invoiceId x = ''inv1'') (lines zero_state)))) (Fin 0)"
    by (simp add: js_eval zero_state_def cong: let_weak_cong)
  show ?thesis
    using h1 h2 allocator_failure [of "''inv1''" zero_state "Fin 40" zero_state] by blast
qed

section \<open>The round trip through the discounted unit price\<close>

text \<open>
  C1. The claim: for a draft with a positive unit price, \<open>deriveFromUnitNet\<close> applied to
  the draft's own computed \<open>unitNet\<close> gives a draft whose recomputed \<open>unitNet\<close> is the
  original one. In \<open>src/App.jsx\<close> it is not: the resolver stores the rate as the text
  \<open>String(disc)\<close>, and the parser reads a text of one to three digits, a dot and exactly
  three digits as a thousands group. For the price 32 and the rate 3.125 per cent the
  computed \<open>unitNet\<close> is 31, the rate solved back is 3.125, stored as \<open>3.125\<close>, read
  again as 3125 and clamped to 100: the recomputed \<open>unitNet\<close> is 0. Every operation on
  the way is exact in binary64. The second variant stores the number and returns 31.
\<close>

theorem round_trip_fails_at_32:
  "unitNet (calcLine draft_32) = Fin 31
   \<and> deriveFromUnitNet draft_32 (Num (unitNet (calcLine draft_32)))
       = draft_32\<lparr>discountRate := Str ''3.125''\<rparr>
   \<and> disc (calcLine (deriveFromUnitNet draft_32 (Num (unitNet (calcLine draft_32))))) = Fin 100
   \<and> unitNet (calcLine (deriveFromUnitNet draft_32 (Num (unitNet (calcLine draft_32))))) = Fin 0
   \<and> unitNet (calcLine_v2 draft_32) = Fin 31
   \<and> unitNet (calcLine_v2 (deriveFromUnitNet_v2 draft_32 (Num (unitNet (calcLine_v2 draft_32)))))
       = Fin 31"
proof -
  have a: "unitNet (calcLine draft_32) = Fin 31"
    by (simp add: js_eval draft_32_def cong: let_weak_cong)
  have b: "deriveFromUnitNet draft_32 (Num (Fin 31)) = draft_32\<lparr>discountRate := Str ''3.125''\<rparr>"
    by (simp add: js_eval draft_32_def cong: let_weak_cong)
  have c: "disc (calcLine (draft_32\<lparr>discountRate := Str ''3.125''\<rparr>)) = Fin 100"
    "unitNet (calcLine (draft_32\<lparr>discountRate := Str ''3.125''\<rparr>)) = Fin 0"
    by (simp_all add: js_eval draft_32_def cong: let_weak_cong)
  have d: "unitNet (calcLine_v2 draft_32) = Fin 31"
    by (simp add: js_eval draft_32_def cong: let_weak_cong)
  have e: "unitNet (calcLine_v2 (deriveFromUnitNet_v2 draft_32 (Num (Fin 31)))) = Fin 31"
    by (simp add: js_eval draft_32_def cong: let_weak_cong)
  show ?thesis by (simp only: a b c d e simp_thms)
qed

section \<open>Creating an invoice with a lump discount\<close>

text \<open>
  C3. The claim: when an invoice is created with a lump discount above zero, the allocator
  runs on the new lines, so that the lines inserted carry the allocated rates; in both
  variants. The first variant does so (it allocates on the new lines "without looking at
  the state", as its comment says). The second calls \<open>distributeInvoiceDiscount\<close> after
  queueing the insertion; that function reads the \<open>lines\<close> of the current render, where
  the invoice just created has no line yet, alerts "Faturada kalem yok." and allocates
  nothing. On the specification's example (weights 100 and 300, discount 40) the first
  variant inserts both lines at 10 per cent, the second at 0 per cent with the alert.
\<close>

theorem create_with_discount_v2_allocates_nothing:
  "map discountRate (lines (saveInvoiceCreate uid_example (form_state (Str ''40'') form_lines)))
     = [Str ''10'', Str ''10'']
   \<and> alerts (saveInvoiceCreate uid_example (form_state (Str ''40'') form_lines)) = []
   \<and> map discountRate (lines (saveInvoiceCreate_v2 uid_example (form_state (Num (Fin 40)) form_lines_v2)))
     = [Num (Fin 0), Num (Fin 0)]
   \<and> alerts (saveInvoiceCreate_v2 uid_example (form_state (Num (Fin 40)) form_lines_v2))
     = [InvoiceHasNoLines]"
  by (simp add: js_eval saveInvoiceCreate_v2_def saveInvoiceCreate_def
      distributeInvoiceDiscount_v2_def form_state_def form_lines_def form_lines_v2_def
      uid_example_def cong: let_weak_cong)

section \<open>The totals of a line\<close>

text \<open>
  C4, as the code has it. For every line whose numeric fields are texts or binary64
  numbers, in both variants: the net total is at most price times quantity; and whenever
  the VAT-inclusive total and the net total times \<open>1 + vat / 100\<close> are both finite, they
  differ by at most \<open>5 * 2^-53\<close> of the exact product of net unit price, factor and
  quantity, plus \<open>2^-1074 * (quantity + 3)\<close>. They are the same exact product rounded twice
  in two orders: \<open>calcLine\<close> multiplies by the factor first and by the quantity second.
\<close>

theorem line_totals:
  assumes "wf_line l"
  shows "js_le (totalNet (calcLine l)) (fmul (up (calcLine l)) (q (calcLine l)))
     \<and> (isFinite (totalVatIncl (calcLine l))
          \<and> isFinite (fmul (totalNet (calcLine l)) (vat_factor (calcLine l)))
        \<longrightarrow> differ_at_most (totalVatIncl (calcLine l))
              (fmul (totalNet (calcLine l)) (vat_factor (calcLine l)))
              (5 * 2 powi (- 53)
                 * (fin_val (unitNet (calcLine l)) * fin_val (vat_factor (calcLine l))
                    * fin_val (q (calcLine l)))
               + 2 powi (- 1074) * (fin_val (q (calcLine l)) + 3)))
     \<and> js_le (totalNet (calcLine_v2 l)) (fmul (up (calcLine_v2 l)) (q (calcLine_v2 l)))
     \<and> (isFinite (totalVatIncl (calcLine_v2 l))
          \<and> isFinite (fmul (totalNet (calcLine_v2 l)) (vat_factor (calcLine_v2 l)))
        \<longrightarrow> differ_at_most (totalVatIncl (calcLine_v2 l))
              (fmul (totalNet (calcLine_v2 l)) (vat_factor (calcLine_v2 l)))
              (5 * 2 powi (- 53)
                 * (fin_val (unitNet (calcLine_v2 l)) * fin_val (vat_factor (calcLine_v2 l))
                    * fin_val (q (calcLine_v2 l)))
               + 2 powi (- 1074) * (fin_val (q (calcLine_v2 l)) + 3)))"
proof -
  have main: "js_le (totalNet c) (fmul (up c) (q c))
     \<and> (isFinite (totalVatIncl c) \<and> isFinite (fmul (totalNet c) (vat_factor c))
        \<longrightarrow> differ_at_most (totalVatIncl c) (fmul (totalNet c) (vat_factor c))
              (5 * 2 powi (- 53) * (fin_val (unitNet c) * fin_val (vat_factor c) * fin_val (q c))
               + 2 powi (- 1074) * (fin_val (q c) + 3)))"
    if a: "is_double u" "0 \<le> u" "0 \<le> n" "0 \<le> d" "d \<le> 100" "0 \<le> v" "v \<le> 100"
      and c: "q c = Fin n" "up c = Fin u" "vat c = Fin v"
        "unitNet c = fmul (Fin u) (fsub (Fin 1) (fdiv (Fin d) (Fin 100)))"
        "unitVatIncl c = fmul (unitNet c) (fadd (Fin 1) (fdiv (Fin v) (Fin 100)))"
        "totalNet c = fmul (unitNet c) (Fin n)"
        "totalVatIncl c = fmul (unitVatIncl c) (Fin n)"
    for c :: computed and u n d v :: rat
  proof -
    from line_parts [OF a(1,2,4,5,6,7)] obtain w m where
      w: "fmul (Fin u) (fsub (Fin 1) (fdiv (Fin d) (Fin 100))) = Fin w" "0 \<le> w"
      and m: "fadd (Fin 1) (fdiv (Fin v) (Fin 100)) = Fin m" "1 \<le> m" "m \<le> 2"
      by blast
    have e: "unitNet c = Fin w" "vat_factor c = Fin m"
      "totalNet c = fmul (Fin w) (Fin n)" "totalVatIncl c = fmul (fmul (Fin w) (Fin m)) (Fin n)"
      by (simp_all add: c w m vat_factor_def)
    have 1: "js_le (totalNet c) (fmul (up c) (q c))"
      using line_arithmetic(2) [OF a] by (simp add: c)
    have 2: "differ_at_most (totalVatIncl c) (fmul (totalNet c) (vat_factor c))
              (5 * 2 powi (- 53) * (fin_val (unitNet c) * fin_val (vat_factor c) * fin_val (q c))
               + 2 powi (- 1074) * (fin_val (q c) + 3))"
      if "isFinite (totalVatIncl c)" "isFinite (fmul (totalNet c) (vat_factor c))"
      using totals_close [OF w(2) a(3) m(2,3)] that
      unfolding e c(1) by (simp add: fin_val_def)
    from 1 2 show ?thesis by blast
  qed
  have "js_le (totalNet (calcLine l)) (fmul (up (calcLine l)) (q (calcLine l)))
     \<and> (isFinite (totalVatIncl (calcLine l))
          \<and> isFinite (fmul (totalNet (calcLine l)) (vat_factor (calcLine l)))
        \<longrightarrow> differ_at_most (totalVatIncl (calcLine l))
              (fmul (totalNet (calcLine l)) (vat_factor (calcLine l)))
              (5 * 2 powi (- 53)
                 * (fin_val (unitNet (calcLine l)) * fin_val (vat_factor (calcLine l))
                    * fin_val (q (calcLine l)))
               + 2 powi (- 1074) * (fin_val (q (calcLine l)) + 3)))"
    by (rule calcLine_form [OF assms]) (rule main)
  moreover
  have "js_le (totalNet (calcLine_v2 l)) (fmul (up (calcLine_v2 l)) (q (calcLine_v2 l)))
     \<and> (isFinite (totalVatIncl (calcLine_v2 l))
          \<and> isFinite (fmul (totalNet (calcLine_v2 l)) (vat_factor (calcLine_v2 l)))
        \<longrightarrow> differ_at_most (totalVatIncl (calcLine_v2 l))
              (fmul (totalNet (calcLine_v2 l)) (vat_factor (calcLine_v2 l)))
              (5 * 2 powi (- 53)
                 * (fin_val (unitNet (calcLine_v2 l)) * fin_val (vat_factor (calcLine_v2 l))
                    * fin_val (q (calcLine_v2 l)))
               + 2 powi (- 1074) * (fin_val (q (calcLine_v2 l)) + 3)))"
    by (rule calcLine_v2_form [OF assms]) (rule main)
  ultimately show ?thesis by blast
qed

theorem line_totals_witness:
  "wf_line line_3x7
   \<and> isFinite (totalVatIncl (calcLine line_3x7))
   \<and> isFinite (fmul (totalNet (calcLine line_3x7)) (vat_factor (calcLine line_3x7)))
   \<and> js_le (totalNet (calcLine line_3x7)) (fmul (up (calcLine line_3x7)) (q (calcLine line_3x7)))
   \<and> differ_at_most (totalVatIncl (calcLine line_3x7))
        (fmul (totalNet (calcLine line_3x7)) (vat_factor (calcLine line_3x7)))
        (5 * 2 powi (- 53)
           * (fin_val (unitNet (calcLine line_3x7)) * fin_val (vat_factor (calcLine line_3x7))
              * fin_val (q (calcLine line_3x7)))
         + 2 powi (- 1074) * (fin_val (q (calcLine line_3x7)) + 3))"
proof -
  have h: "wf_line line_3x7" by (simp add: wf_line_def wf_val_def line_3x7_def)
  have f: "isFinite (totalVatIncl (calcLine line_3x7))"
    by (simp add: js_eval line_3x7_def cong: let_weak_cong)
  have g: "isFinite (fmul (totalNet (calcLine line_3x7)) (vat_factor (calcLine line_3x7)))"
    by (simp add: js_eval vat_factor_def line_3x7_def cong: let_weak_cong)
  show ?thesis using h f g line_totals [OF h] by blast
qed

text \<open>
  C4 as stated fails twice. The two orders of rounding differ: for a price of 3, a quantity
  of 7 and 20 per cent VAT, \<open>totalVatIncl\<close> is 25.199999999999996 while
  \<open>totalNet * (1 + vat / 100)\<close> is 25.2. And one order can overflow where the other does
  not: for a price of \<open>1.6e308\<close> and a quantity of one half, in the second variant,
  \<open>totalVatIncl\<close> is \<open>Infinity\<close> while \<open>totalNet * (1 + vat / 100)\<close> is finite.
\<close>

theorem line_totals_counterexample:
  "totalVatIncl (calcLine line_3x7)
     \<noteq> fmul (totalNet (calcLine line_3x7)) (vat_factor (calcLine line_3x7))
   \<and> totalVatIncl (calcLine_v2 line_3x7)
     \<noteq> fmul (totalNet (calcLine_v2 line_3x7)) (vat_factor (calcLine_v2 line_3x7))
   \<and> totalVatIncl (calcLine_v2 line_half_v2) = PInf
   \<and> isFinite (fmul (totalNet (calcLine_v2 line_half_v2)) (vat_factor (calcLine_v2 line_half_v2)))"
proof -
  have a: "totalVatIncl (calcLine line_3x7)
     \<noteq> fmul (totalNet (calcLine line_3x7)) (vat_factor (calcLine line_3x7))"
    by (simp add: js_eval vat_factor_def line_3x7_def cong: let_weak_cong)
  have b: "totalVatIncl (calcLine_v2 line_3x7)
     \<noteq> fmul (totalNet (calcLine_v2 line_3x7)) (vat_factor (calcLine_v2 line_3x7))"
    by (simp add: js_eval vat_factor_def line_3x7_def cong: let_weak_cong)
  have c: "totalVatIncl (calcLine_v2 line_half_v2) = PInf"
    by (simp add: js_eval line_half_v2_def cong: let_weak_cong)
  have d: "isFinite (fmul (totalNet (calcLine_v2 line_half_v2)) (vat_factor (calcLine_v2 line_half_v2)))"
    by (simp add: js_eval vat_factor_def line_half_v2_def cong: let_weak_cong)
  show ?thesis using a b c d by blast
qed

section \<open>The invariant of the computed values\<close>

text \<open>
  C5, as the code has it. For every line whose numeric fields are texts or binary64
  numbers, in both variants: the net unit price is at most the unit price; the VAT amount
  is NaN or at least zero; and it is NaN exactly when the net total is \<open>Infinity\<close> or the
  VAT-inclusive total is NaN.
\<close>

theorem line_invariant:
  assumes "wf_line l"
  shows "js_le (unitNet (calcLine l)) (up (calcLine l))
     \<and> (vatAmount (calcLine l) = NaN \<or> js_le (Fin 0) (vatAmount (calcLine l)))
     \<and> ((vatAmount (calcLine l) = NaN)
          = (totalNet (calcLine l) = PInf \<or> totalVatIncl (calcLine l) = NaN))
     \<and> js_le (unitNet (calcLine_v2 l)) (up (calcLine_v2 l))
     \<and> (vatAmount (calcLine_v2 l) = NaN \<or> js_le (Fin 0) (vatAmount (calcLine_v2 l)))
     \<and> ((vatAmount (calcLine_v2 l) = NaN)
          = (totalNet (calcLine_v2 l) = PInf \<or> totalVatIncl (calcLine_v2 l) = NaN))"
proof -
  have main: "js_le (unitNet c) (up c)
     \<and> (vatAmount c = NaN \<or> js_le (Fin 0) (vatAmount c))
     \<and> ((vatAmount c = NaN) = (totalNet c = PInf \<or> totalVatIncl c = NaN))"
    if a: "is_double u" "0 \<le> u" "0 \<le> n" "0 \<le> d" "d \<le> 100" "0 \<le> v" "v \<le> 100"
      and c: "up c = Fin u"
        "unitNet c = fmul (Fin u) (fsub (Fin 1) (fdiv (Fin d) (Fin 100)))"
        "unitVatIncl c = fmul (unitNet c) (fadd (Fin 1) (fdiv (Fin v) (Fin 100)))"
        "totalNet c = fmul (unitNet c) (Fin n)"
        "totalVatIncl c = fmul (unitVatIncl c) (Fin n)"
        "vatAmount c = fsub (totalVatIncl c) (totalNet c)"
    for c :: computed and u n d v :: rat
  proof -
    from line_parts [OF a(1,2,4,5,6,7)] obtain w m where
      w: "fmul (Fin u) (fsub (Fin 1) (fdiv (Fin d) (Fin 100))) = Fin w" "0 \<le> w" "is_double w"
      and m: "fadd (Fin 1) (fdiv (Fin v) (Fin 100)) = Fin m" "1 \<le> m"
      by blast
    have e: "totalNet c = fmul (Fin w) (Fin n)" "totalVatIncl c = fmul (fmul (Fin w) (Fin m)) (Fin n)"
      by (simp_all add: c w m)
    have 1: "js_le (unitNet c) (up c)" using line_arithmetic(1) [OF a] by (simp add: c)
    from vat_amount_cases [OF w(2,3) a(3) m(2)] 1 show ?thesis
      unfolding c(6) e by blast
  qed
  have "js_le (unitNet (calcLine l)) (up (calcLine l))
     \<and> (vatAmount (calcLine l) = NaN \<or> js_le (Fin 0) (vatAmount (calcLine l)))
     \<and> ((vatAmount (calcLine l) = NaN)
          = (totalNet (calcLine l) = PInf \<or> totalVatIncl (calcLine l) = NaN))"
    by (rule calcLine_form [OF assms]) (rule main)
  moreover
  have "js_le (unitNet (calcLine_v2 l)) (up (calcLine_v2 l))
     \<and> (vatAmount (calcLine_v2 l) = NaN \<or> js_le (Fin 0) (vatAmount (calcLine_v2 l)))
     \<and> ((vatAmount (calcLine_v2 l) = NaN)
          = (totalNet (calcLine_v2 l) = PInf \<or> totalVatIncl (calcLine_v2 l) = NaN))"
    by (rule calcLine_v2_form [OF assms]) (rule main)
  ultimately show ?thesis by blast
qed

text \<open>
  At a price of \<open>1.6e308\<close> for one unit with 20 per cent VAT, in the second variant, the
  VAT-inclusive total overflows, the net total does not, and the VAT amount is
  \<open>Infinity\<close>; the first variant reads the price as 1.6308.
\<close>

theorem line_invariant_witness:
  "wf_line line_over_v2
   \<and> totalVatIncl (calcLine_v2 line_over_v2) = PInf
   \<and> vatAmount (calcLine_v2 line_over_v2) = PInf
   \<and> js_le (unitNet (calcLine line_over_v2)) (up (calcLine line_over_v2))
   \<and> js_le (Fin 0) (vatAmount (calcLine line_over_v2))
   \<and> js_le (unitNet (calcLine_v2 line_over_v2)) (up (calcLine_v2 line_over_v2))
   \<and> js_le (Fin 0) (vatAmount (calcLine_v2 line_over_v2))"
proof -
  have h: "wf_line line_over_v2" by (simp add: wf_line_def wf_val_def line_over_v2_def)
  have a: "totalVatIncl (calcLine_v2 line_over_v2) = PInf"
    by (simp add: js_eval line_over_v2_def cong: let_weak_cong)
  have b: "vatAmount (calcLine_v2 line_over_v2) = PInf"
    by (simp add: js_eval line_over_v2_def cong: let_weak_cong)
  have c: "isFinite (vatAmount (calcLine line_over_v2))"
    by (simp add: js_eval line_over_v2_def cong: let_weak_cong)
  then have c': "vatAmount (calcLine line_over_v2) \<noteq> NaN" by (auto simp: isFinite_def)
  from line_invariant [OF h] have
    "js_le (unitNet (calcLine line_over_v2)) (up (calcLine line_over_v2))"
    "vatAmount (calcLine line_over_v2) = NaN \<or> js_le (Fin 0) (vatAmount (calcLine line_over_v2))"
    "js_le (unitNet (calcLine_v2 line_over_v2)) (up (calcLine_v2 line_over_v2))"
    by blast+
  with h a b c' show ?thesis by simp
qed

text \<open>
  C5 as stated fails where both totals overflow: for a price and a quantity of \<open>10^155\<close>
  each, \<open>totalNet\<close> and \<open>totalVatIncl\<close> are both \<open>Infinity\<close> and their difference, the VAT
  amount, is NaN, which is not at least zero. In the second variant the two texts are
  \<open>1e155\<close>; in the first they are written out in 156 digits.
\<close>

theorem line_invariant_counterexample:
  "vatAmount (calcLine_v2 line_huge_v2) = NaN
   \<and> \<not> js_le (Fin 0) (vatAmount (calcLine_v2 line_huge_v2))
   \<and> vatAmount (calcLine line_huge) = NaN
   \<and> \<not> js_le (Fin 0) (vatAmount (calcLine line_huge))"
proof -
  have a: "vatAmount (calcLine_v2 line_huge_v2) = NaN"
    by (simp add: js_eval line_huge_v2_def cong: let_weak_cong)
  have b: "vatAmount (calcLine line_huge) = NaN"
    by (simp add: js_eval line_huge_def cong: let_weak_cong)
  show ?thesis unfolding a b by (simp add: js_le_def js_lt_def)
qed

section \<open>The shares of the allocator\<close>

lemma allocate_shares:
  assumes "items \<noteq> []"
  shows "map fst (allocate dTotal sumW a items)
    = map (\<lambda>(l, w). fdiv (fmul dTotal w) sumW) (butlast items)
      @ [fsub dTotal (foldl fadd a (map (\<lambda>(l, w). fdiv (fmul dTotal w) sumW) (butlast items)))]"
  using assms
proof (induction items arbitrary: a)
  case Nil
  then show ?case by simp
next
  case (Cons x rest)
  obtain l w where x: "x = (l, w)" by (cases x)
  show ?case
  proof (cases "rest = []")
    case True
    then show ?thesis by (simp add: x Let_def)
  next
    case False
    from Cons.IH [OF False] show ?thesis using False by (simp add: x Let_def)
  qed
qed

lemma distribute_uses_allocation:
  assumes "filter (\<lambda>x. invoiceId x = invId) (lines snap) = invLines" "invLines \<noteq> []"
    "\<not> js_le (sum_weights (map weight invLines)) (Fin 0)"
  shows "lines (distributeInvoiceDiscount snap invId dTotal st)
    = map (\<lambda>x. case by_id (map snd (allocation_of dTotal invLines)) (line_id x) of
                 Some u \<Rightarrow> u | None \<Rightarrow> x) (lines st)"
  using assms by (simp add: distributeInvoiceDiscount_def allocation_of_def Let_def)

lemma sum_back_close:
  assumes "fadd (Fin p) (fsub (Fin t) (Fin p)) = Fin S"
  shows "\<bar>S - t\<bar> \<le> 2 powi (- 53) * (\<bar>t\<bar> + 2 * \<bar>t - p\<bar>) + 3 * 2 powi (- 1075)"
proof -
  define u :: rat where "u = 2 powi (- 53)"
  define a :: rat where "a = 2 powi (- 1075)"
  have u: "0 \<le> u" "u \<le> 1" by (simp_all add: u_def power_int_minus)
  have a: "0 \<le> a" by (simp add: a_def)
  have l: "fsub (Fin t) (Fin p) = rd (t - p)" by (simp add: fsub_def fadd_def fneg_def)
  obtain L where L: "rd (t - p) = Fin L"
    using assms unfolding l by (cases "rd (t - p)") (simp_all add: fadd_def)
  have S: "rd (p + L) = Fin S" using assms by (simp add: l L fadd_def)
  define e where "e = u * \<bar>t - p\<bar> + a"
  have e0: "0 \<le> e" using u a by (simp add: e_def)
  have 1: "\<bar>L - (t - p)\<bar> \<le> e" using rd_err [OF L] by (simp add: e_def u_def a_def)
  have 2: "\<bar>S - (p + L)\<bar> \<le> u * \<bar>p + L\<bar> + a" using rd_err [OF S] by (simp add: u_def a_def)
  have "\<bar>p + L\<bar> \<le> \<bar>t\<bar> + e" using 1 by linarith
  then have "u * \<bar>p + L\<bar> \<le> u * (\<bar>t\<bar> + e)" using u(1) by (rule mult_left_mono)
  moreover have "u * e \<le> 1 * e" using u(2) e0 by (rule mult_right_mono)
  ultimately have "u * \<bar>p + L\<bar> \<le> u * \<bar>t\<bar> + e" by (simp add: algebra_simps)
  with 1 2 have "\<bar>S - t\<bar> \<le> u * \<bar>t\<bar> + 2 * e + a" by linarith
  also have "\<dots> = u * (\<bar>t\<bar> + 2 * \<bar>t - p\<bar>) + 3 * a" by (simp add: e_def algebra_simps)
  finally show ?thesis by (simp add: u_def a_def)
qed

text \<open>
  C2, as the code has it. For a non-empty line set and a binary64 \<open>discountTotal\<close>, where
  the running binary64 sum \<open>allocated\<close> of the shares before the last is finite: every line
  but the last receives \<open>discountTotal * weight / sumW\<close>; the last receives
  \<open>discountTotal - allocated\<close>, rounded; the shares, added up in line order, give
  \<open>allocated + (discountTotal - allocated)\<close>, rounded twice. That sum is exactly
  \<open>discountTotal\<close> when the difference \<open>discountTotal - allocated\<close> is itself a binary64
  number; in general, when it is finite, it differs from \<open>discountTotal\<close> by at most
  \<open>2^-53 * (|discountTotal| + 2 * |discountTotal - allocated|) + 3 * 2^-1075\<close>.
\<close>

theorem shares_sum:
  assumes "invLines \<noteq> []" and "is_double t"
    and "foldl fadd (Fin 0) (butlast (map fst (allocation_of (Fin t) invLines))) = Fin p"
  shows "butlast (map fst (allocation_of (Fin t) invLines))
       = map (\<lambda>l. fdiv (fmul (Fin t) (weight l)) (sum_weights (map weight invLines)))
           (butlast invLines)
     \<and> last (map fst (allocation_of (Fin t) invLines)) = fsub (Fin t) (Fin p)
     \<and> foldl fadd (Fin 0) (map fst (allocation_of (Fin t) invLines))
         = fadd (Fin p) (fsub (Fin t) (Fin p))
     \<and> (is_double (t - p)
          \<longrightarrow> foldl fadd (Fin 0) (map fst (allocation_of (Fin t) invLines)) = Fin t)
     \<and> (isFinite (foldl fadd (Fin 0) (map fst (allocation_of (Fin t) invLines)))
          \<longrightarrow> differ_at_most (foldl fadd (Fin 0) (map fst (allocation_of (Fin t) invLines))) (Fin t)
                (2 powi (- 53) * (\<bar>t\<bar> + 2 * \<bar>t - p\<bar>) + 3 * 2 powi (- 1075)))"
proof -
  define items where "items = zip invLines (map weight invLines)"
  define sumW where "sumW = sum_weights (map weight invLines)"
  define xs where "xs = map (\<lambda>(l, w). fdiv (fmul (Fin t) w) sumW) (butlast items)"
  define total where "total = foldl fadd (Fin 0) (map fst (allocation_of (Fin t) invLines))"
  have ne: "items \<noteq> []" using assms(1) by (cases invLines) (simp_all add: items_def)
  have sh: "map fst (allocation_of (Fin t) invLines) = xs @ [fsub (Fin t) (foldl fadd (Fin 0) xs)]"
    unfolding allocation_of_def xs_def items_def [symmetric] sumW_def [symmetric]
    by (rule allocate_shares [OF ne])
  have z: "zip ls (map weight ls) = map (\<lambda>l. (l, weight l)) ls" for ls :: "'a line_fields_scheme list"
    by (induction ls) simp_all
  have xs: "xs = map (\<lambda>l. fdiv (fmul (Fin t) (weight l)) sumW) (butlast invLines)"
    unfolding xs_def items_def z by (simp add: map_butlast [symmetric] comp_def)
  have p: "foldl fadd (Fin 0) xs = Fin p" using assms(3) by (simp add: sh)
  have A: "butlast (map fst (allocation_of (Fin t) invLines)) = xs" by (simp add: sh)
  have B: "last (map fst (allocation_of (Fin t) invLines)) = fsub (Fin t) (Fin p)"
    by (simp add: sh p)
  have C: "total = fadd (Fin p) (fsub (Fin t) (Fin p))"
    by (simp add: total_def sh p)
  have D: "total = Fin t" if "is_double (t - p)"
  proof -
    have "fsub (Fin t) (Fin p) = Fin (t - p)"
      using that by (simp add: fsub_def fadd_def fneg_def)
    then show ?thesis using assms(2) by (simp add: C fadd_def)
  qed
  have E: "differ_at_most total (Fin t) (2 powi (- 53) * (\<bar>t\<bar> + 2 * \<bar>t - p\<bar>) + 3 * 2 powi (- 1075))"
    if "isFinite total"
  proof -
    from that obtain S where S: "total = Fin S" by (cases total) (simp_all add: isFinite_def)
    then have "fadd (Fin p) (fsub (Fin t) (Fin p)) = Fin S" by (simp add: C)
    from sum_back_close [OF this] show ?thesis by (simp add: S differ_at_most_def)
  qed
  show ?thesis unfolding total_def [symmetric] A B using C D E unfolding xs sumW_def by blast
qed

theorem shares_sum_witness:
  "form_lines \<noteq> [] \<and> is_double 40
   \<and> foldl fadd (Fin 0) (butlast (map fst (allocation_of (Fin 40) form_lines))) = Fin 10
   \<and> is_double (40 - 10)
   \<and> last (map fst (allocation_of (Fin 40) form_lines)) = fsub (Fin 40) (Fin 10)
   \<and> foldl fadd (Fin 0) (map fst (allocation_of (Fin 40) form_lines)) = Fin 40
   \<and> differ_at_most (foldl fadd (Fin 0) (map fst (allocation_of (Fin 40) form_lines))) (Fin 40)
       (2 powi (- 53) * (\<bar>40\<bar> + 2 * \<bar>40 - 10\<bar>) + 3 * 2 powi (- 1075))"
proof -
  have a: "form_lines \<noteq> []" by (simp add: form_lines_def)
  have b: "is_double 40" "is_double (40 - 10)"
    by (simp_all add: is_double_def num_eval cong: let_weak_cong)
  have c: "foldl fadd (Fin 0) (butlast (map fst (allocation_of (Fin 40) form_lines))) = Fin 10"
    by (simp add: js_eval allocation_of_def form_lines_def cong: let_weak_cong)
  from shares_sum [OF a b(1) c] b(2) have
    d: "last (map fst (allocation_of (Fin 40) form_lines)) = fsub (Fin 40) (Fin 10)"
    and e: "foldl fadd (Fin 0) (map fst (allocation_of (Fin 40) form_lines)) = Fin 40"
    and f: "isFinite (foldl fadd (Fin 0) (map fst (allocation_of (Fin 40) form_lines)))
      \<longrightarrow> differ_at_most (foldl fadd (Fin 0) (map fst (allocation_of (Fin 40) form_lines))) (Fin 40)
           (2 powi (- 53) * (\<bar>40\<bar> + 2 * \<bar>40 - 10\<bar>) + 3 * 2 powi (- 1075))"
    by blast+
  have "isFinite (foldl fadd (Fin 0) (map fst (allocation_of (Fin 40) form_lines)))"
    unfolding e by (simp add: isFinite_def)
  with f have "differ_at_most (foldl fadd (Fin 0) (map fst (allocation_of (Fin 40) form_lines))) (Fin 40)
       (2 powi (- 53) * (\<bar>40\<bar> + 2 * \<bar>40 - 10\<bar>) + 3 * 2 powi (- 1075))" by blast
  with a b c d e show ?thesis by blast
qed

text \<open>
  C2 as stated fails: the shares do not always add up to \<open>discountTotal\<close>. For the lump
  discount \<open>0,9\<close> over two lines weighing 1 and 2 the shares are 0.3 and
  \<open>0.9 - 0.3 = 0.6000000000000001\<close> (the difference is rounded), and their sum is
  0.9000000000000001: neither the binary64 sum nor the exact sum of the two shares is the
  discount.
\<close>

theorem shares_sum_counterexample:
  "js_lt (Fin 0) (sum_weights (map weight lines_1_2))
   \<and> js_le (Fin 0) (toNumber (Str ''0,9''))
   \<and> foldl fadd (Fin 0) (map fst (allocation_of (toNumber (Str ''0,9'')) lines_1_2))
       \<noteq> toNumber (Str ''0,9'')
   \<and> toNumber (Str ''0,9'') \<noteq> Fin (5404319552844595 / 18014398509481984
       + 5404319552844596 / 9007199254740992)
   \<and> map fst (allocation_of (toNumber (Str ''0,9'')) lines_1_2)
       = [Fin (5404319552844595 / 18014398509481984), Fin (5404319552844596 / 9007199254740992)]"
proof -
  have t: "toNumber (Str ''0,9'') = Fin (8106479329266893 / 9007199254740992)"
    by (simp add: js_eval cong: let_weak_cong)
  have w: "js_lt (Fin 0) (sum_weights (map weight lines_1_2))"
    by (simp add: js_eval lines_1_2_def cong: let_weak_cong)
  have m: "map fst (allocation_of (Fin (8106479329266893 / 9007199254740992)) lines_1_2)
       = [Fin (5404319552844595 / 18014398509481984), Fin (5404319552844596 / 9007199254740992)]"
    by (simp add: js_eval allocation_of_def lines_1_2_def cong: let_weak_cong)
  have s: "foldl fadd (Fin 0)
      [Fin (5404319552844595 / 18014398509481984), Fin (5404319552844596 / 9007199254740992)]
    \<noteq> Fin (8106479329266893 / 9007199254740992)"
    by (simp add: js_eval cong: let_weak_cong)
  show ?thesis unfolding t m using w s by simp
qed

section \<open>Texts of digits\<close>


lemma is_digit_not_sep: "is_digit c \<Longrightarrow> c \<noteq> CHR ''.'' \<and> c \<noteq> CHR '','' \<and> c \<noteq> CHR ''-'' \<and> c \<noteq> CHR ''+''"
  by (auto simp: is_digit_def)


lemma digits_takeWhile: "list_all is_digit a \<Longrightarrow> \<not> is_digit c \<Longrightarrow> takeWhile is_digit (a @ c # r) = a"
  by (induction a) simp_all

lemma digits_dropWhile: "list_all is_digit a \<Longrightarrow> \<not> is_digit c \<Longrightarrow> dropWhile is_digit (a @ c # r) = c # r"
  by (induction a) simp_all

lemma digits_takeWhile_all: "list_all is_digit a \<Longrightarrow> takeWhile is_digit a = a"
  by (induction a) simp_all

lemma digits_dropWhile_all: "list_all is_digit a \<Longrightarrow> dropWhile is_digit a = []"
  by (induction a) simp_all







lemma finite_or_zero_rd:
  assumes "\<bar>v\<bar> \<le> 10 ^ 22"
  shows "isFinite (rd v)"
proof -
  define B :: rat where "B = 2 powi 1023"
  have big: "(10::rat) ^ 22 < B" unfolding B_def by simp
  have d: "is_double B" unfolding B_def by (simp add: is_double_def num_eval cong: let_weak_cong)
  then have r: "rnd B = B" by (simp add: is_double_iff)
  have "- B \<le> v" "v \<le> B" using assms big by (simp_all add: abs_le_iff)
  from rnd_mono [OF this(1)] rnd_mono [OF this(2)]
  have "\<bar>rnd v\<bar> \<le> B" by (simp add: rnd_minus r abs_le_iff)
  moreover have "B < 2 powi 1024" unfolding B_def by (simp only: powi2_less_iff)
  ultimately have "\<bar>rnd v\<bar> < 2 powi 1024" by (rule le_less_trans)
  then show ?thesis by (simp add: rd_alt isFinite_def)
qed





section \<open>The parsers of the two variants\<close>






section \<open>Decimal digits of a natural number\<close>

lemma digit_char_facts:
  assumes "d < 10"
  shows "is_digit (digit_char d)" "hex_val (digit_char d) = d"
    "digit_char d = CHR ''0'' \<longleftrightarrow> d = 0"
proof -
  from assms have "d = 0 \<or> d = 1 \<or> d = 2 \<or> d = 3 \<or> d = 4 \<or> d = 5 \<or> d = 6
    \<or> d = 7 \<or> d = 8 \<or> d = 9" by presburger
  then have "is_digit (digit_char d) \<and> hex_val (digit_char d) = d
    \<and> (digit_char d = CHR ''0'' \<longleftrightarrow> d = 0)"
    by (elim disjE) (simp_all add: digit_char_def is_digit_def hex_val_def)
  then show "is_digit (digit_char d)" "hex_val (digit_char d) = d"
    "digit_char d = CHR ''0'' \<longleftrightarrow> d = 0" by simp_all
qed

lemma digits_of_nat_digits: "list_all is_digit (digits_of_nat n)"
proof (induction n rule: digits_of_nat.induct)
  case (1 n)
  show ?case
  proof (cases "n < 10")
    case True
    then show ?thesis by (subst digits_of_nat.simps) (simp add: digit_char_facts)
  next
    case False
    with 1 show ?thesis by (subst digits_of_nat.simps) (simp add: digit_char_facts)
  qed
qed

lemma digits_of_nat_nonempty [simp]: "digits_of_nat n \<noteq> []"
  by (subst digits_of_nat.simps) simp

lemma nat_of_digits_snoc: "nat_of_digits 10 (s @ [c]) = 10 * nat_of_digits 10 s + hex_val c"
  by (simp add: nat_of_digits_def)

lemma nat_of_digits_of_nat: "nat_of_digits 10 (digits_of_nat n) = n"
proof (induction n rule: digits_of_nat.induct)
  case (1 n)
  show ?case
  proof (cases "n < 10")
    case True
    then show ?thesis
      by (subst digits_of_nat.simps) (simp add: nat_of_digits_def digit_char_facts)
  next
    case False
    with 1 have "nat_of_digits 10 (digits_of_nat (n div 10)) = n div 10" by simp
    then show ?thesis using False
      by (subst digits_of_nat.simps) (simp add: nat_of_digits_snoc digit_char_facts)
  qed
qed

lemma digits_length_upper: "n < 10 ^ length (digits_of_nat n)"
proof (induction n rule: digits_of_nat.induct)
  case (1 n)
  show ?case
  proof (cases "n < 10")
    case True
    then show ?thesis by (subst digits_of_nat.simps) simp
  next
    case False
    with 1 have "n div 10 < 10 ^ length (digits_of_nat (n div 10))" by simp
    then have "n < 10 * 10 ^ length (digits_of_nat (n div 10))" by linarith
    then show ?thesis using False by (subst digits_of_nat.simps) simp
  qed
qed

lemma digits_length_lower: "0 < n \<Longrightarrow> 10 ^ (length (digits_of_nat n) - 1) \<le> n"
proof (induction n rule: digits_of_nat.induct)
  case (1 n)
  show ?case
  proof (cases "n < 10")
    case True
    then show ?thesis using "1.prems" by (subst digits_of_nat.simps) simp
  next
    case False
    then have "0 < n div 10" by simp
    with 1 False have "10 ^ (length (digits_of_nat (n div 10)) - 1) \<le> n div 10" by simp
    then have "10 * 10 ^ (length (digits_of_nat (n div 10)) - 1) \<le> n" by linarith
    moreover have "length (digits_of_nat (n div 10)) \<noteq> 0" by simp
    ultimately show ?thesis using False
      by (subst digits_of_nat.simps) (simp flip: power_Suc add: Suc_diff_1 [OF length_greater_0_conv [THEN iffD2]])
  qed
qed

lemma nat_of_digits_append:
  "nat_of_digits 10 (s @ t) = nat_of_digits 10 s * 10 ^ length t + nat_of_digits 10 t"
proof (induction t rule: rev_induct)
  case Nil
  show ?case by (simp add: nat_of_digits_def)
next
  case (snoc c t)
  have "nat_of_digits 10 (s @ t @ [c]) = 10 * nat_of_digits 10 (s @ t) + hex_val c"
    using nat_of_digits_snoc [of "s @ t" c] by simp
  then show ?case by (simp add: snoc nat_of_digits_snoc algebra_simps)
qed

lemma nat_of_digits_zeros: "nat_of_digits 10 (replicate k (CHR ''0'')) = 0"
proof (induction k)
  case 0
  show ?case by (simp add: nat_of_digits_def)
next
  case (Suc k)
  have "replicate (Suc k) (CHR ''0'') = replicate k (CHR ''0'') @ [CHR ''0'']"
    by (simp add: replicate_append_same)
  then have "nat_of_digits 10 (replicate (Suc k) (CHR ''0''))
      = 10 * nat_of_digits 10 (replicate k (CHR ''0'')) + hex_val (CHR ''0'')"
    by (simp only: nat_of_digits_snoc)
  then show ?case by (simp add: Suc hex_val_def)
qed

lemma strip_zeros_decompose:
  "\<exists>k. ds = strip_zeros ds @ replicate k (CHR ''0'')"
proof (induction ds rule: rev_induct)
  case Nil
  show ?case by (simp add: strip_zeros_def)
next
  case (snoc c ds)
  show ?case
  proof (cases "c = CHR ''0''")
    case True
    from snoc obtain k where k: "ds = strip_zeros ds @ replicate k (CHR ''0'')" by blast
    have "strip_zeros (ds @ [c]) = strip_zeros ds" by (simp add: strip_zeros_def True)
    moreover have "ds @ [c] = strip_zeros ds @ replicate (Suc k) (CHR ''0'')"
    proof -
      from k have "ds @ [c] = (strip_zeros ds @ replicate k (CHR ''0'')) @ [c]"
        by (rule arg_cong [where f = "\<lambda>x. x @ [c]"])
      then show ?thesis by (simp add: True replicate_append_same)
    qed
    ultimately show ?thesis by metis
  next
    case False
    then have "strip_zeros (ds @ [c]) = ds @ [c]" by (simp add: strip_zeros_def)
    then have "ds @ [c] = strip_zeros (ds @ [c]) @ replicate 0 (CHR ''0'')" by simp
    then show ?thesis by blast
  qed
qed

lemma strip_zeros_digits: "list_all is_digit ds \<Longrightarrow> list_all is_digit (strip_zeros ds)"
  using strip_zeros_decompose [of ds] by (metis list_all_append)

lemma strip_zeros_value:
  assumes "nat_of_digits 10 ds \<noteq> 0"
  shows "strip_zeros ds \<noteq> []"
proof
  assume e: "strip_zeros ds = []"
  from strip_zeros_decompose [of ds] obtain k where "ds = strip_zeros ds @ replicate k (CHR ''0'')" ..
  with e have "ds = replicate k (CHR ''0'')" by simp
  then have "nat_of_digits 10 ds = 0" using nat_of_digits_zeros [of k] by simp
  with assms show False by simp
qed

section \<open>The form of a number written as text\<close>

lemma dec_exp_lower:
  assumes "0 < x"
  shows "10 powi (dec_exp x - 1) \<le> x"
proof (cases "1 \<le> x")
  case True
  define m where "m = nat \<lfloor>x\<rfloor>"
  have m: "0 < m" "of_nat m \<le> x" using True by (simp_all add: m_def)
  have l: "length (digits_of_nat m) \<noteq> 0" by simp
  have "(10::nat) ^ (length (digits_of_nat m) - 1) \<le> m" by (rule digits_length_lower [OF m(1)])
  then have "(of_nat (10 ^ (length (digits_of_nat m) - 1)) :: rat) \<le> of_nat m"
    by (simp only: of_nat_le_iff)
  then have "(10::rat) ^ (length (digits_of_nat m) - 1) \<le> of_nat m"
    by (simp only: of_nat_power of_nat_numeral)
  then have "(10::rat) ^ (length (digits_of_nat m) - 1) \<le> x" using m(2) by (rule order_trans)
  moreover have "dec_exp x - 1 = int (length (digits_of_nat m) - 1)"
    using True l unfolding dec_exp_def m_def
    by (cases "length (digits_of_nat (nat \<lfloor>x\<rfloor>))") simp_all
  ultimately show ?thesis by simp
next
  case False
  define c where "c = \<lceil>1 / x\<rceil>"
  define m where "m = nat (c - 1)"
  define L where "L = length (digits_of_nat m)"
  have y: "1 < 1 / x" using False assms by simp
  then have c: "0 < c - 1" unfolding c_def by (simp add: less_ceiling_iff)
  have "m < 10 ^ L" unfolding L_def by (rule digits_length_upper)
  then have "int m < 10 ^ L" by (metis of_nat_less_iff of_nat_numeral of_nat_power)
  then have "c \<le> 10 ^ L" using c by (simp add: m_def)
  then have "(of_int c :: rat) \<le> of_int (10 ^ L)" by (simp only: of_int_le_iff)
  then have "(of_int c :: rat) \<le> 10 ^ L" by (simp only: of_int_power of_int_numeral)
  moreover have "1 / x \<le> of_int c" unfolding c_def by (simp add: ceiling_correct)
  ultimately have "1 / x \<le> 10 ^ L" by (rule order_trans [rotated])
  then have "1 \<le> 10 ^ L * x" using assms by (simp add: pos_divide_le_eq)
  then have "1 / 10 ^ L \<le> x" by (simp add: pos_divide_le_eq mult.commute)
  moreover have "dec_exp x - 1 = - int L" using False by (simp add: dec_exp_def c_def m_def L_def)
  ultimately show ?thesis by (simp add: power_int_minus_divide)
qed

lemma shortest_decimal_pos:
  assumes "0 < x" "1 \<le> x / 10 powi (n - int (k + fuel))"
  shows "0 < fst (shortest_decimal x n k fuel)"
  using assms(2)
proof (induction fuel arbitrary: k)
  case 0
  from round_half_even_mono [OF 0] have "1 \<le> round_half_even (x / 10 powi (n - int k))"
    using round_half_even_of_int [of 1] by simp
  then show ?case by simp
next
  case (Suc fuel)
  define p :: rat where "p = 10 powi (n - int k)"
  define lo where "lo = \<lfloor>x / p\<rfloor>"
  have p: "0 < p" by (simp add: p_def)
  have lo0: "0 \<le> lo" using assms(1) p by (simp add: lo_def)
  have r: "1 \<le> x / 10 powi (n - int (Suc k + fuel))" using Suc.prems by simp
  have lo_case: "0 < lo" if "rd (of_int lo * p) = Fin x"
  proof (rule ccontr)
    assume "\<not> 0 < lo"
    with lo0 have "lo = 0" by simp
    with that have "rd 0 = Fin x" by simp
    then show False using assms(1) by (simp add: rd_alt)
  qed
  show ?case
    using lo_case lo0 Suc.IH [OF r]
    by (simp add: Let_def p_def [symmetric] lo_def [symmetric])
qed

lemma shortest_decimal_start:
  assumes "0 < x"
  shows "0 < fst (shortest_decimal x (dec_exp x) 1 16)"
proof (rule shortest_decimal_pos [OF assms])
  have "(10::rat) powi (dec_exp x - int (1 + 16)) \<le> 10 powi (dec_exp x - 1)"
    by (intro power_int_increasing) simp_all
  also have "\<dots> \<le> x" by (rule dec_exp_lower [OF assms])
  finally show "1 \<le> x / 10 powi (dec_exp x - int (1 + 16))"
    by (simp add: pos_le_divide_eq)
qed

lemma plain_decimal_digits:
  assumes "a \<noteq> []" "list_all is_digit a"
  shows "plain_decimal a"
proof -
  have "hd a \<noteq> CHR ''-''" using assms is_digit_not_sep by (cases a) auto
  then show ?thesis using assms
    by (simp add: plain_decimal_def Let_def digits_takeWhile_all digits_dropWhile_all Ball_set)
qed

lemma plain_decimal_point:
  assumes "a \<noteq> []" "list_all is_digit a" "b \<noteq> []" "list_all is_digit b"
  shows "plain_decimal (a @ CHR ''.'' # b)"
proof -
  have "hd a \<noteq> CHR ''-''" using assms is_digit_not_sep by (cases a) auto
  then have h: "hd (a @ CHR ''.'' # b) \<noteq> CHR ''-''" using assms(1) by simp
  have nd: "\<not> is_digit (CHR ''.'')" by (simp add: is_digit_def)
  show ?thesis using assms h
    by (simp add: plain_decimal_def Let_def digits_takeWhile [OF assms(2) nd]
        digits_dropWhile [OF assms(2) nd])
qed

lemma plain_decimal_minus:
  assumes "plain_decimal s" "s \<noteq> []" "hd s \<noteq> CHR ''-''"
  shows "plain_decimal (CHR ''-'' # s)"
  using assms by (simp add: plain_decimal_def Let_def)

lemma pos_toString_form:
  assumes "0 < x"
  shows "(plain_decimal (pos_toString x) \<or> CHR ''e'' \<in> set (pos_toString x))
    \<and> pos_toString x \<noteq> [] \<and> hd (pos_toString x) \<noteq> CHR ''-''"
proof -
  obtain s e where se: "shortest_decimal x (dec_exp x) 1 16 = (s, e)"
    by (cases "shortest_decimal x (dec_exp x) 1 16")
  define ds0 where "ds0 = digits_of_nat s"
  define ds where "ds = strip_zeros ds0"
  define n where "n = int (length ds0) + e"
  define k where "k = int (length ds)"
  have s: "0 < s" using shortest_decimal_start [OF assms] unfolding se by simp
  have d0: "list_all is_digit ds0" unfolding ds0_def by (rule digits_of_nat_digits)
  have d: "list_all is_digit ds" unfolding ds_def by (rule strip_zeros_digits [OF d0])
  have "nat_of_digits 10 ds0 \<noteq> 0" using s by (simp add: ds0_def nat_of_digits_of_nat)
  then have ne: "ds \<noteq> []" unfolding ds_def by (rule strip_zeros_value)
  have hd: "is_digit (hd ds)" using d ne by (cases ds) simp_all
  then have hm: "hd ds \<noteq> CHR ''-''" "hd ds \<noteq> CHR ''e''" by (auto simp: is_digit_def)
  have z: "list_all is_digit (replicate j (CHR ''0''))" for j
    by (simp add: list_all_iff is_digit_def)
  have eq: "pos_toString x =
     (if k \<le> n \<and> n \<le> 21 then ds @ replicate (nat (n - k)) (CHR ''0'')
      else if 0 < n \<and> n \<le> 21 then take (nat n) ds @ ''.'' @ drop (nat n) ds
      else if - 6 < n \<and> n \<le> 0 then ''0.'' @ replicate (nat (- n)) (CHR ''0'') @ ds
      else (if k = 1 then ds @ ''e'' @ (if n - 1 < 0 then ''-'' else ''+'') @ digits_of_nat (nat \<bar>n - 1\<bar>)
            else [hd ds] @ ''.'' @ tl ds @ ''e'' @ (if n - 1 < 0 then ''-'' else ''+'')
                 @ digits_of_nat (nat \<bar>n - 1\<bar>)))"
    unfolding pos_toString_def se by (simp add: Let_def ds0_def ds_def n_def k_def)
  consider (a) "k \<le> n \<and> n \<le> 21" | (b) "\<not> (k \<le> n \<and> n \<le> 21)" "0 < n \<and> n \<le> 21"
    | (c) "\<not> (k \<le> n \<and> n \<le> 21)" "\<not> (0 < n \<and> n \<le> 21)" "- 6 < n \<and> n \<le> 0"
    | (d) "\<not> (k \<le> n \<and> n \<le> 21)" "\<not> (0 < n \<and> n \<le> 21)" "\<not> (- 6 < n \<and> n \<le> 0)"
    by blast
  then show ?thesis
  proof cases
    case a
    have "plain_decimal (ds @ replicate (nat (n - k)) (CHR ''0''))"
      by (rule plain_decimal_digits) (use ne d z in simp_all)
    then show ?thesis using a ne hm by (simp add: eq)
  next
    case b
    then have nk: "nat n < length ds" "0 < nat n" unfolding k_def by linarith+
    have "plain_decimal (take (nat n) ds @ CHR ''.'' # drop (nat n) ds)"
    proof (rule plain_decimal_point)
      show "take (nat n) ds \<noteq> []" using nk ne by simp
      show "drop (nat n) ds \<noteq> []" using nk by simp
      show "list_all is_digit (take (nat n) ds)" using d by (simp add: list_all_iff) (meson in_set_takeD)
      show "list_all is_digit (drop (nat n) ds)" using d by (simp add: list_all_iff) (meson in_set_dropD)
    qed
    moreover have "hd (take (nat n) ds) = hd ds" using nk by (simp add: hd_take)
    ultimately show ?thesis using b nk ne hm by (simp add: eq)
  next
    case c
    have "plain_decimal (''0'' @ CHR ''.'' # (replicate (nat (- n)) (CHR ''0'') @ ds))"
      by (rule plain_decimal_point) (use ne d z in \<open>simp_all add: is_digit_def\<close>)
    then show ?thesis using c by (simp add: eq)
  next
    case d
    have e4: "pos_toString x =
        (if k = 1 then ds @ ''e'' @ (if n - 1 < 0 then ''-'' else ''+'') @ digits_of_nat (nat \<bar>n - 1\<bar>)
         else [hd ds] @ ''.'' @ tl ds @ ''e'' @ (if n - 1 < 0 then ''-'' else ''+'')
              @ digits_of_nat (nat \<bar>n - 1\<bar>))"
      unfolding eq by (simp only: d if_False)
    have "CHR ''e'' \<in> set (pos_toString x)" unfolding e4 by simp
    moreover have "pos_toString x \<noteq> []" unfolding e4 using ne by simp
    moreover have "hd (pos_toString x) \<noteq> CHR ''-''" unfolding e4 using ne hm by simp
    ultimately show ?thesis by blast
  qed
qed

lemma Number_toString_form:
  assumes "truthy a" "js_le (Fin 0) a"
  shows "plain_decimal (Number_toString a) \<or> CHR ''e'' \<in> set (Number_toString a)
    \<or> Number_toString a = ''Infinity''"
proof (cases a)
  case (Fin r)
  with assms have "0 < r" by (simp add: truthy_def)
  from pos_toString_form [OF this] have "plain_decimal (pos_toString r) \<or> CHR ''e'' \<in> set (pos_toString r)"
    by (rule conjunct1)
  then show ?thesis using \<open>0 < r\<close> by (auto simp: Fin Number_toString_def)
qed (use assms in \<open>simp_all add: Number_toString_def js_le_def js_lt_def\<close>)

section \<open>The signs of the computed values\<close>

lemma line_signs:
  assumes u: "is_double u" "0 \<le> u" and n: "0 \<le> n" and d: "0 \<le> d" "d \<le> 100"
    and v: "0 \<le> v" "v \<le> 100"
  defines "net \<equiv> fmul (Fin u) (fsub (Fin 1) (fdiv (Fin d) (Fin 100)))"
  defines "gross \<equiv> fmul net (fadd (Fin 1) (fdiv (Fin v) (Fin 100)))"
  shows "js_le (Fin 0) net"
    and "js_le (Fin 0) gross"
    and "js_le (Fin 0) (fmul net (Fin n))"
    and "fmul gross (Fin n) = NaN \<or> js_le (Fin 0) (fmul gross (Fin n))"
proof -
  have "0 \<le> d / 100" "d / 100 \<le> 1" using d by simp_all
  from rd_between [OF this] obtain t where t: "rd (d / 100) = Fin t" "0 \<le> t" "t \<le> 1" by auto
  have "0 \<le> 1 - t" "1 - t \<le> 1" using t by simp_all
  from rd_between [OF this] obtain s where s: "rd (1 - t) = Fin s" "0 \<le> s" "s \<le> 1" by auto
  have "0 \<le> u * s" "u * s \<le> u" using u s by (simp_all add: mult_left_le)
  from rd_between [OF this u(1)] obtain w where
    w: "rd (u * s) = Fin w" "0 \<le> w" "w \<le> u" "is_double w" by auto
  have net: "net = Fin w" by (simp add: net_def fmul_def fsub_def fadd_def fneg_def fdiv_def t s w)
  show "js_le (Fin 0) net" using w by (simp add: net)
  have "0 \<le> w * n" using w n by simp
  then show "js_le (Fin 0) (fmul net (Fin n))"
    by (cases rule: rd_nonneg_cases) (simp_all add: net fmul_def)
  have "0 \<le> v / 100" "v / 100 \<le> 1" using v by simp_all
  from rd_between [OF this] obtain tv where tv: "rd (v / 100) = Fin tv" "0 \<le> tv" "tv \<le> 1" by auto
  have two: "is_double 2" by (simp add: is_double_def num_eval cong: let_weak_cong)
  have "1 \<le> 1 + tv" "1 + tv \<le> 2" using tv by simp_all
  from rd_between' [OF this _ two] obtain m where m: "rd (1 + tv) = Fin m" "1 \<le> m" by auto
  have gross: "gross = rd (w * m)"
    by (simp add: gross_def net fmul_def fadd_def fdiv_def tv m)
  have "0 \<le> w * m" using w m by simp
  then show "js_le (Fin 0) gross"
    by (cases rule: rd_nonneg_cases) (simp_all add: gross)
  from \<open>0 \<le> w * m\<close> show "fmul gross (Fin n) = NaN \<or> js_le (Fin 0) (fmul gross (Fin n))"
  proof (cases rule: rd_nonneg_cases)
    case inf
    then show ?thesis using n
      by (auto simp: gross fmul_def inf_of_sign_def sign_of_def)
  next
    case (fin g)
    have "0 \<le> g * n" using fin n by simp
    then show ?thesis
      by (cases rule: rd_nonneg_cases) (simp_all add: gross fin fmul_def)
  qed
qed

lemma computed_text_of:
  assumes "a = NaN \<or> js_le (Fin 0) a"
  shows "computed_text (if truthy a then Number_toString a else [])"
proof (cases "truthy a")
  case True
  then have "a \<noteq> NaN" by (auto simp: truthy_def)
  with assms have "js_le (Fin 0) a" by simp
  from Number_toString_form [OF True this] show ?thesis using True by (simp add: computed_text_def)
qed (simp add: computed_text_def)

lemma export_row_computed:
  assumes "wf_line r"
  shows "computed_text (if truthy (unitNet (calcLine r)) then Number_toString (unitNet (calcLine r)) else [])"
    and "computed_text (if truthy (unitVatIncl (calcLine r)) then Number_toString (unitVatIncl (calcLine r)) else [])"
    and "computed_text (if truthy (totalNet (calcLine r)) then Number_toString (totalNet (calcLine r)) else [])"
    and "computed_text (if truthy (totalVatIncl (calcLine r)) then Number_toString (totalVatIncl (calcLine r)) else [])"
proof -
  from calcLine_form [OF assms] obtain u n d v where
    a: "is_double u" "0 \<le> u" "0 \<le> n" "0 \<le> d" "d \<le> 100" "0 \<le> v" "v \<le> 100"
    and c: "unitNet (calcLine r) = fmul (Fin u) (fsub (Fin 1) (fdiv (Fin d) (Fin 100)))"
      "unitVatIncl (calcLine r) = fmul (unitNet (calcLine r)) (fadd (Fin 1) (fdiv (Fin v) (Fin 100)))"
      "totalNet (calcLine r) = fmul (unitNet (calcLine r)) (Fin n)"
      "totalVatIncl (calcLine r) = fmul (unitVatIncl (calcLine r)) (Fin n)"
    by metis
  from line_signs [OF a] have
    "js_le (Fin 0) (unitNet (calcLine r))" "js_le (Fin 0) (unitVatIncl (calcLine r))"
    "js_le (Fin 0) (totalNet (calcLine r))"
    "totalVatIncl (calcLine r) = NaN \<or> js_le (Fin 0) (totalVatIncl (calcLine r))"
    by (simp_all add: c)
  then show
    "computed_text (if truthy (unitNet (calcLine r)) then Number_toString (unitNet (calcLine r)) else [])"
    "computed_text (if truthy (unitVatIncl (calcLine r)) then Number_toString (unitVatIncl (calcLine r)) else [])"
    "computed_text (if truthy (totalNet (calcLine r)) then Number_toString (totalNet (calcLine r)) else [])"
    "computed_text (if truthy (totalVatIncl (calcLine r)) then Number_toString (totalVatIncl (calcLine r)) else [])"
    by (simp_all only: computed_text_of simp_thms)
qed

section \<open>The export rows\<close>

text \<open>
  C9, as the code has it.  \<open>buildExportRows\<close> hands the four stored fields \<open>qty\<close>,
  \<open>unitPrice\<close>, \<open>discountRate\<close> and \<open>vatRate\<close> of every row to the export exactly as they are
  stored, whatever was typed; it does not serialise them.  Each of the four computed fields
  \<open>unitNet\<close>, \<open>unitVatIncl\<close>, \<open>totalNet\<close> and \<open>totalVatIncl\<close> is the empty text when the value
  is zero or not a number, and \<open>String\<close> of the value otherwise.  For rows whose stored numbers
  are binary64 values that text is a plain decimal with \<open>.\<close> as separator, or a number in
  exponent notation, or \<open>Infinity\<close>.
\<close>

theorem export_rows:
  assumes "list_all wf_line viewRows"
  shows "map x_qty (buildExportRows viewRows) = map qty viewRows
    \<and> map x_unitPrice (buildExportRows viewRows) = map unitPrice viewRows
    \<and> map x_discountRate (buildExportRows viewRows) = map discountRate viewRows
    \<and> map x_vatRate (buildExportRows viewRows) = map vatRate viewRows
    \<and> map x_unitNet (buildExportRows viewRows)
        = map (\<lambda>r. if truthy (unitNet (calcLine r)) then Number_toString (unitNet (calcLine r)) else []) viewRows
    \<and> map x_unitVatIncl (buildExportRows viewRows)
        = map (\<lambda>r. if truthy (unitVatIncl (calcLine r)) then Number_toString (unitVatIncl (calcLine r)) else []) viewRows
    \<and> map x_totalNet (buildExportRows viewRows)
        = map (\<lambda>r. if truthy (totalNet (calcLine r)) then Number_toString (totalNet (calcLine r)) else []) viewRows
    \<and> map x_totalVatIncl (buildExportRows viewRows)
        = map (\<lambda>r. if truthy (totalVatIncl (calcLine r)) then Number_toString (totalVatIncl (calcLine r)) else []) viewRows
    \<and> list_all (\<lambda>e. computed_text (x_unitNet e) \<and> computed_text (x_unitVatIncl e)
          \<and> computed_text (x_totalNet e) \<and> computed_text (x_totalVatIncl e))
        (buildExportRows viewRows)"
proof -
  have "list_all (\<lambda>e. computed_text (x_unitNet e) \<and> computed_text (x_unitVatIncl e)
          \<and> computed_text (x_totalNet e) \<and> computed_text (x_totalVatIncl e))
        (buildExportRows viewRows)"
    using assms
  proof (induction viewRows)
    case Nil
    show ?case by (simp add: buildExportRows_def)
  next
    case (Cons r rs)
    then have "wf_line r" and rest: "list_all (\<lambda>e. computed_text (x_unitNet e) \<and> computed_text (x_unitVatIncl e)
          \<and> computed_text (x_totalNet e) \<and> computed_text (x_totalVatIncl e)) (buildExportRows rs)"
      by simp_all
    from export_row_computed [OF this(1)] rest show ?case
      by (simp add: buildExportRows_def Let_def)
  qed
  then show ?thesis by (simp add: buildExportRows_def Let_def comp_def)
qed

theorem export_rows_witness:
  "list_all wf_line [row_maske, row_numune]
   \<and> map x_unitPrice (buildExportRows [row_maske, row_numune]) = [Str ''7,5'', Str ''0'']
   \<and> list_all (\<lambda>e. computed_text (x_unitNet e) \<and> computed_text (x_unitVatIncl e)
          \<and> computed_text (x_totalNet e) \<and> computed_text (x_totalVatIncl e))
        (buildExportRows [row_maske, row_numune])"
proof -
  have w: "list_all wf_line [row_maske, row_numune]"
    by (simp add: wf_line_def wf_val_def row_maske_def row_numune_def)
  have "map unitPrice [row_maske, row_numune] = [Str ''7,5'', Str ''0'']"
    by (simp add: row_maske_def row_numune_def)
  with export_rows [OF w] w show ?thesis by simp
qed

text \<open>
  The sample row of masks is exported with its price as typed, \<open>7,5\<close>; a free sample has
  the empty text as net unit price; a screw at \<open>0,0000001\<close> has \<open>1e-7\<close>.
\<close>

theorem export_rows_counterexample:
  "x_unitPrice (hd (buildExportRows [row_maske])) = Str ''7,5''
   \<and> \<not> plain_decimal_val (x_unitPrice (hd (buildExportRows [row_maske])))
   \<and> x_unitNet (hd (buildExportRows [row_numune])) = []
   \<and> \<not> plain_decimal (x_unitNet (hd (buildExportRows [row_numune])))
   \<and> x_unitNet (hd (buildExportRows [row_kucuk])) = ''1e-7''
   \<and> \<not> plain_decimal (x_unitNet (hd (buildExportRows [row_kucuk])))"
proof -
  have g: "x_unitNet (hd (buildExportRows [r]))
      = (if truthy (unitNet (calcLine r)) then Number_toString (unitNet (calcLine r)) else [])"
    for r :: view_row
    by (simp add: buildExportRows_def Let_def)
  have a: "x_unitPrice (hd (buildExportRows [row_maske])) = Str ''7,5''"
    by (simp add: buildExportRows_def Let_def row_maske_def)
  have n: "unitNet (calcLine row_numune) = Fin 0"
    by (simp add: js_eval row_numune_def cong: let_weak_cong)
  have b: "x_unitNet (hd (buildExportRows [row_numune])) = []"
    unfolding g n by (simp add: truthy_def)
  have k: "unitNet (calcLine row_kucuk) = Fin (944473296573929 / 9444732965739290427392)"
    by (simp add: js_eval row_kucuk_def cong: let_weak_cong)
  have t: "Number_toString (Fin (944473296573929 / 9444732965739290427392)) = ''1e-7''"
    by (simp add: js_eval cong: let_weak_cong)
  have c: "x_unitNet (hd (buildExportRows [row_kucuk])) = ''1e-7''"
    unfolding g k t by (simp add: truthy_def)
  have "\<not> plain_decimal ''7,5''" "\<not> plain_decimal []" "\<not> plain_decimal ''1e-7''"
    by (simp_all add: plain_decimal_def is_digit_def Let_def)
  then show ?thesis by (simp add: a b c plain_decimal_val_def)
qed


end
